theory Spec2Isabelle
  imports Complex_Main
begin

section \<open>Wind analysis: the data model\<close>

text \<open>
  The module \<^verbatim>\<open>scripts/wind_analysis.py\<close> holds one class, \<^verbatim>\<open>WindAnalysis\<close>, with two
  plotting methods over a pandas data frame. Both clean the frame, the second one also
  bins and averages it, and then both hand sequences to a plotting library. The model
  follows the methods up to the calls of the plotting library and returns the arguments
  of those calls; what the plotting library draws is not part of the repository.

  A float cell is \<open>Some v\<close> with \<open>v\<close> the real number that the float stands for; the
  missing value NaN is \<open>None\<close>. The arithmetic of \<^verbatim>\<open>np.linspace\<close> is the arithmetic of
  binary64: every operation is rounded to the nearest float (53 bits, ties to even), so
  the edges of the sectors are the floats that the program computes, not the exact
  fractions. The exponent range is not bounded (overflow and underflow are not
  modelled), infinite cells are not modelled, and counts are converted to floats
  exactly (they are below \<open>2\<^sup>5\<^sup>3\<close>). The mean of a group is the exact mean of its
  values: the rounding of the sum and of the division is not modelled. The row index of
  a frame is not modelled; every frame the methods build shares the index of the frame
  it was taken from.

  The library functions are modelled for pandas 1.1 to 2.x and numpy 1.x, the versions
  that go with \<^verbatim>\<open>matplotlib.cm.get_cmap\<close>, which the module calls: \<^verbatim>\<open>groupby\<close> on a
  categorical key keeps the categories without rows (\<^verbatim>\<open>observed=False\<close>).
\<close>

datatype error = KeyError | ValueError | IndexError | TypeError

text \<open>A column is a float column or a categorical one (categories, then one code per row).\<close>

datatype column =
    Floats "real option list"
  | Categorical "string list" "nat option list"

text \<open>A frame is the list of its named columns, in order; names may repeat, as in pandas.\<close>

type_synonym frame = "(string \<times> column) list"

text \<open>What \<^verbatim>\<open>df[name]\<close> returns: a series, or a frame when the name is not unique.\<close>

datatype pd_value = Series column | DataFrame frame

fun col_len :: "column \<Rightarrow> nat" where
  "col_len (Floats xs) = length xs"
| "col_len (Categorical cats codes) = length codes"

fun col_notna :: "column \<Rightarrow> bool list" where
  "col_notna (Floats xs) = map (\<lambda>x. x \<noteq> None) xs"
| "col_notna (Categorical cats codes) = map (\<lambda>x. x \<noteq> None) codes"

text \<open>Selection of the rows of a list by a boolean mask.\<close>

definition take_mask :: "bool list \<Rightarrow> 'a list \<Rightarrow> 'a list" where
  "take_mask m xs = map snd (filter fst (zip m xs))"

fun col_take :: "bool list \<Rightarrow> column \<Rightarrow> column" where
  "col_take m (Floats xs) = Floats (take_mask m xs)"
| "col_take m (Categorical cats codes) = Categorical cats (take_mask m codes)"

definition take_rows :: "bool list \<Rightarrow> frame \<Rightarrow> frame" where
  "take_rows m fr = map (\<lambda>(n, c). (n, col_take m c)) fr"

definition nrows :: "frame \<Rightarrow> nat" where
  "nrows fr = (case fr of [] \<Rightarrow> 0 | (n, c) # _ \<Rightarrow> col_len c)"

definition lookup_cols :: "frame \<Rightarrow> string \<Rightarrow> frame" where
  "lookup_cols fr name = filter (\<lambda>(n, c). n = name) fr"

text \<open>\<^verbatim>\<open>df[[k1, k2, ...]]\<close>: a new frame of the named columns; KeyError when one is absent.\<close>

fun getitem_list :: "frame \<Rightarrow> string list \<Rightarrow> error + frame" where
  "getitem_list fr [] = Inr []"
| "getitem_list fr (k # ks) =
     (case lookup_cols fr k of
        [] \<Rightarrow> Inl KeyError
      | c # cs \<Rightarrow>
          (case getitem_list fr ks of
             Inl e \<Rightarrow> Inl e
           | Inr rest \<Rightarrow> Inr (c # cs @ rest)))"

text \<open>\<^verbatim>\<open>df[name]\<close>.\<close>

definition getitem :: "frame \<Rightarrow> string \<Rightarrow> error + pd_value" where
  "getitem fr name =
     (case lookup_cols fr name of
        [] \<Rightarrow> Inl KeyError
      | [(n, c)] \<Rightarrow> Inr (Series c)
      | c # d # cs \<Rightarrow> Inr (DataFrame (c # d # cs)))"

text \<open>
  \<^verbatim>\<open>df.dropna()\<close>: a new frame of the rows in which no column is missing. The mask is
  built column by column, as pandas does.
\<close>

definition notna_mask :: "frame \<Rightarrow> bool list" where
  "notna_mask fr =
     foldr (\<lambda>(n, c) acc. map2 (\<and>) (col_notna c) acc) fr (replicate (nrows fr) True)"

definition dropna :: "frame \<Rightarrow> frame" where
  "dropna fr = take_rows (notna_mask fr) fr"

text \<open>\<^verbatim>\<open>df[name] = col\<close>: replaces the column of that name, or appends a new one.\<close>

definition setitem :: "frame \<Rightarrow> string \<Rightarrow> column \<Rightarrow> frame" where
  "setitem fr name col =
     (if lookup_cols fr name = [] then fr @ [(name, col)]
      else map (\<lambda>(n, c). if n = name then (n, col) else (n, c)) fr)"

section \<open>Binary64 rounding\<close>

text \<open>
  The binade of a positive number \<open>x\<close> is the \<open>k\<close> with \<open>2\<^sup>k \<le> x < 2\<^sup>k\<^sup>+\<^sup>1\<close>, found by
  halving or doubling; the fuel is enough for every \<open>x\<close>.
\<close>

fun binade_up :: "nat \<Rightarrow> real \<Rightarrow> int" where
  "binade_up 0 x = 0"
| "binade_up (Suc f) x = (if 2 \<le> x then binade_up f (x / 2) + 1 else 0)"

fun binade_down :: "nat \<Rightarrow> real \<Rightarrow> int" where
  "binade_down 0 x = 0"
| "binade_down (Suc f) x = (if x < 1 then binade_down f (2 * x) - 1 else 0)"

definition binade :: "real \<Rightarrow> int" where
  "binade x = (if 1 \<le> x then binade_up (nat \<lceil>x\<rceil>) x else binade_down (nat \<lceil>1 / x\<rceil>) x)"

text \<open>Rounding to the nearest integer, a tie to the even one.\<close>

definition rne :: "real \<Rightarrow> int" where
  "rne m = (let f = \<lfloor>m\<rfloor>; r = m - of_int f
            in if r < 1 / 2 then f else if 1 / 2 < r then f + 1
               else if even f then f else f + 1)"

text \<open>
  The float nearest to a real: the significand of 53 bits is the number divided by the
  quantum \<open>2\<^sup>k\<^sup>-\<^sup>5\<^sup>2\<close> of its binade, rounded.
\<close>

definition fl :: "real \<Rightarrow> real" where
  "fl x = (if x = 0 then 0
           else let q = 2 powi (binade \<bar>x\<bar> - 52)
                in sgn x * (of_int (rne (\<bar>x\<bar> / q)) * q))"

text \<open>\<^verbatim>\<open>np.pi\<close>, the float nearest to \<open>\<pi>\<close>: 3.141592653589793.\<close>

definition np_pi :: real where
  "np_pi = 7074237752028440 / 2 ^ 51"

section \<open>numpy and the Python built-ins\<close>

text \<open>
  \<^verbatim>\<open>np.linspace(start, stop, num, endpoint)\<close>: \<open>num\<close> samples. The step is the range
  divided by \<open>num - 1\<close> (by \<open>num\<close> without the end point), sample \<open>i\<close> is \<open>i\<close> times the
  step, plus the start (when the step is zero: \<open>i\<close> divided by the divisor, times the
  range), and with the end point the last sample is set to \<open>stop\<close>. Every operation is
  rounded. A negative \<open>num\<close> raises ValueError.
\<close>

definition linspace :: "real \<Rightarrow> real \<Rightarrow> int \<Rightarrow> bool \<Rightarrow> error + real list" where
  "linspace start stop num endpoint =
     (if num < 0 then Inl ValueError
      else
        let dv = (if endpoint then num - 1 else num);
            delta = fl (stop - start);
            step = fl (delta / real_of_int dv);
            y = map (\<lambda>i. if 0 < dv
                           then (if step = 0
                                 then fl (fl (fl (real i / real_of_int dv) * delta) + start)
                                 else fl (fl (real i * step) + start))
                           else fl (fl (real i * delta) + start)) [0..<nat num]
        in Inr (if endpoint \<and> 1 < num then butlast y @ [stop] else y))"

text \<open>\<^verbatim>\<open>int(x)\<close> on a float truncates towards zero.\<close>

definition py_int :: "real \<Rightarrow> int" where
  "py_int x = (if x < 0 then \<lceil>x\<rceil> else \<lfloor>x\<rfloor>)"

definition digit_char :: "nat \<Rightarrow> char" where
  "digit_char d = ''0123456789'' ! d"

fun str_nat :: "nat \<Rightarrow> string" where
  "str_nat n = (if n < 10 then [digit_char n] else str_nat (n div 10) @ [digit_char (n mod 10)])"

declare str_nat.simps [simp del]

text \<open>The decimal text that an f-string gives for an int.\<close>

definition str_int :: "int \<Rightarrow> string" where
  "str_int i = (if i < 0 then CHR ''-'' # str_nat (nat (- i)) else str_nat (nat i))"

section \<open>pandas: cut and groupby\<close>

text \<open>
  \<^verbatim>\<open>bins.searchsorted(x, side="right")\<close> on increasing bins: the number of edges that
  are at most \<open>x\<close>.
\<close>

definition searchsorted_right :: "real list \<Rightarrow> real \<Rightarrow> nat" where
  "searchsorted_right bins x = length (takeWhile (\<lambda>b. b \<le> x) bins)"

text \<open>
  The code of one value under \<^verbatim>\<open>pd.cut(..., right=False)\<close>: missing when the value is
  missing, lies below the first edge, or is not below the last edge.
\<close>

definition cut_code :: "real list \<Rightarrow> real option \<Rightarrow> nat option" where
  "cut_code bins x =
     (case x of
        None \<Rightarrow> None
      | Some v \<Rightarrow>
          let ids = searchsorted_right bins v
          in if ids = 0 \<or> ids = length bins then None else Some (ids - 1))"

text \<open>
  \<^verbatim>\<open>pd.cut(x, bins=edges, labels=labels, right=False)\<close> with a sequence of edges. It
  raises ValueError when the input is not one-dimensional, when the edges do not
  increase, when an edge repeats (more than two edges), when a label repeats (the
  result is an ordered categorical), and when the labels are not one fewer than the edges.
\<close>

definition cut :: "pd_value \<Rightarrow> real list \<Rightarrow> string list \<Rightarrow> error + column" where
  "cut x bins labels =
     (case x of
        DataFrame _ \<Rightarrow> Inl ValueError
      | Series (Categorical _ _) \<Rightarrow> Inl TypeError
      | Series (Floats xs) \<Rightarrow>
          if \<not> sorted bins then Inl ValueError
          else if \<not> distinct bins \<and> length bins \<noteq> 2 then Inl ValueError
          else if \<not> distinct labels then Inl ValueError
          else if int (length labels) \<noteq> int (length bins) - 1 then Inl ValueError
          else Inr (Categorical labels (map (cut_code bins) xs)))"

text \<open>The mean of a group; the mean of no values is NaN.\<close>

definition mean :: "real list \<Rightarrow> real option" where
  "mean xs = (if xs = [] then None else Some (sum_list xs / real (length xs)))"

text \<open>The non-missing values of the rows whose key has code \<open>k\<close>.\<close>

definition group_values :: "nat option list \<Rightarrow> real option list \<Rightarrow> nat \<Rightarrow> real list" where
  "group_values codes vals k =
     List.map_filter (\<lambda>(c, v). if c = Some k then v else None) (zip codes vals)"

text \<open>
  The values of a result: one number per category when one column is averaged, one row
  of numbers per category when the column name is not unique and a frame is averaged.
\<close>

datatype ndarray = Array1 "real option list" | Array2 "real option list list"

definition col_floats :: "string \<times> column \<Rightarrow> real option list option" where
  "col_floats p = (case snd p of Floats vals \<Rightarrow> Some vals | Categorical _ _ \<Rightarrow> None)"

text \<open>
  \<^verbatim>\<open>df.groupby(key)[col].mean().values\<close> with its index, for a categorical key: one entry
  per category, in the order of the categories, rows with a missing key left out. When
  \<open>col\<close> names several columns the result has one column of means for each. A key that is
  a frame raises ValueError, the mean of a categorical column TypeError. Grouping by a
  float key does not occur in this module (the key is the column that \<^verbatim>\<open>pd.cut\<close> has
  just made) and is answered TypeError.
\<close>

definition groupby_mean :: "frame \<Rightarrow> string \<Rightarrow> string \<Rightarrow> error + (string list \<times> ndarray)" where
  "groupby_mean fr key col =
     (case getitem fr key of
        Inl e \<Rightarrow> Inl e
      | Inr (DataFrame _) \<Rightarrow> Inl ValueError
      | Inr (Series (Floats _)) \<Rightarrow> Inl TypeError
      | Inr (Series (Categorical cats codes)) \<Rightarrow>
          (case getitem fr col of
             Inl e \<Rightarrow> Inl e
           | Inr (Series (Categorical _ _)) \<Rightarrow> Inl TypeError
           | Inr (Series (Floats vals)) \<Rightarrow>
               Inr (cats, Array1 (map (\<lambda>k. mean (group_values codes vals k)) [0..<length cats]))
           | Inr (DataFrame cols) \<Rightarrow>
               (case those (map col_floats cols) of
                  None \<Rightarrow> Inl TypeError
                | Some valss \<Rightarrow>
                    Inr (cats, Array2 (map (\<lambda>k. map (\<lambda>vals. mean (group_values codes vals k)) valss)
                                        [0..<length cats])))))"

section \<open>The object and the heap\<close>

text \<open>
  Frames are objects: the heap is the list of the frames allocated so far and a
  reference is a position in it. A \<^verbatim>\<open>WindAnalysis\<close> object holds a reference to its
  data. A pandas operation that returns a new frame allocates it.
\<close>

type_synonym heap = "frame list"

record wind_analysis =
  data :: nat

definition alloc :: "heap \<Rightarrow> frame \<Rightarrow> nat \<times> heap" where
  "alloc h fr = (length h, h @ [fr])"

section \<open>plot\_radial\_bar\<close>

text \<open>The arguments of \<^verbatim>\<open>ax.fill\<close>, \<^verbatim>\<open>ax.set_xticks\<close> and \<^verbatim>\<open>ax.set_xticklabels\<close>.\<close>

record radial_chart =
  fill_angles :: "real list"
  fill_values :: ndarray
  xticks :: "real list"
  xticklabels :: "string list"

text \<open>
  The labels \<^verbatim>\<open>[f"{int(bin_edges[i])}-{int(bin_edges[i + 1])}" for i in range(num_bins)]\<close>;
  an index out of range raises IndexError.
\<close>

definition sector_label :: "real list \<Rightarrow> nat \<Rightarrow> string" where
  "sector_label bin_edges i =
     str_int (py_int (bin_edges ! i)) @ ''-'' @ str_int (py_int (bin_edges ! (i + 1)))"

definition sector_labels :: "real list \<Rightarrow> int \<Rightarrow> error + string list" where
  "sector_labels bin_edges num_bins =
     (if 0 < num_bins \<and> length bin_edges \<le> nat num_bins then Inl IndexError
      else Inr (map (sector_label bin_edges) [0..<nat num_bins]))"

text \<open>\<^verbatim>\<open>np.concatenate((xs, [xs[0]]))\<close>; IndexError on an empty sequence.\<close>

definition close_seq :: "'a list \<Rightarrow> error + 'a list" where
  "close_seq xs = (case xs of [] \<Rightarrow> Inl IndexError | x # _ \<Rightarrow> Inr (xs @ [x]))"

definition close_values :: "ndarray \<Rightarrow> error + ndarray" where
  "close_values a =
     (case a of
        Array1 xs \<Rightarrow> (case close_seq xs of Inl e \<Rightarrow> Inl e | Inr ys \<Rightarrow> Inr (Array1 ys))
      | Array2 rows \<Rightarrow> (case close_seq rows of Inl e \<Rightarrow> Inl e | Inr ys \<Rightarrow> Inr (Array2 ys)))"

definition plot_radial_bar ::
  "wind_analysis \<Rightarrow> heap \<Rightarrow> string \<Rightarrow> string \<Rightarrow> int \<Rightarrow> (error + radial_chart) \<times> heap" where
  "plot_radial_bar self h wind_speed_col wind_dir_col num_bins =
     (case getitem_list (h ! data self) [wind_speed_col, wind_dir_col] of
        Inl e \<Rightarrow> (Inl e, h)
      | Inr sel \<Rightarrow>
          let (wind_data, h1) = alloc h (dropna sel) in
          (case linspace 0 360 (num_bins + 1) True of
             Inl e \<Rightarrow> (Inl e, h1)
           | Inr bin_edges \<Rightarrow>
          (case getitem (h1 ! wind_data) wind_dir_col of
             Inl e \<Rightarrow> (Inl e, h1)
           | Inr dir \<Rightarrow>
          (case sector_labels bin_edges num_bins of
             Inl e \<Rightarrow> (Inl e, h1)
           | Inr labels \<Rightarrow>
          (case cut dir bin_edges labels of
             Inl e \<Rightarrow> (Inl e, h1)
           | Inr sector \<Rightarrow>
          let h2 = h1[wind_data := setitem (h1 ! wind_data) ''sector'' sector] in
          (case groupby_mean (h2 ! wind_data) ''sector'' wind_speed_col of
             Inl e \<Rightarrow> (Inl e, h2)
           | Inr (index, values) \<Rightarrow>
          (case linspace 0 (2 * np_pi) num_bins False of
             Inl e \<Rightarrow> (Inl e, h2)
           | Inr angles \<Rightarrow>
          (case close_seq angles of
             Inl e \<Rightarrow> (Inl e, h2)
           | Inr angles' \<Rightarrow>
          (case close_values values of
             Inl e \<Rightarrow> (Inl e, h2)
           | Inr values' \<Rightarrow>
          (Inr \<lparr>fill_angles = angles', fill_values = values',
                xticks = butlast angles', xticklabels = index\<rparr>, h2))))))))))"

section \<open>plot\_wind\_rose\<close>

text \<open>
  The colour map argument is a name or a colour map object; a name is resolved by
  \<^verbatim>\<open>cm.get_cmap\<close>, here a parameter (the registry of matplotlib), which raises
  ValueError on an unknown name. The result is the arguments of \<^verbatim>\<open>ax.bar\<close>.
\<close>

datatype 'cm cmap_arg = CmapName string | CmapObject 'cm

record 'cm windrose_bar =
  bar_direction :: pd_value
  bar_var :: pd_value
  bar_normed :: bool
  bar_bins :: "real list"
  bar_cmap :: 'cm

definition resolve_cmap :: "(string \<Rightarrow> 'cm option) \<Rightarrow> 'cm cmap_arg \<Rightarrow> error + 'cm" where
  "resolve_cmap get_cmap cmap =
     (case cmap of
        CmapName s \<Rightarrow> (case get_cmap s of None \<Rightarrow> Inl ValueError | Some c \<Rightarrow> Inr c)
      | CmapObject c \<Rightarrow> Inr c)"

definition plot_wind_rose ::
  "(string \<Rightarrow> 'cm option) \<Rightarrow> wind_analysis \<Rightarrow> heap \<Rightarrow> string \<Rightarrow> string \<Rightarrow>
     real list option \<Rightarrow> 'cm cmap_arg \<Rightarrow> (error + 'cm windrose_bar) \<times> heap" where
  "plot_wind_rose get_cmap self h wind_speed_col wind_dir_col bins cmap =
     (let bins' = (case bins of None \<Rightarrow> [0, 1, 2, 3, 5, 10, 15, 20] | Some b \<Rightarrow> b) in
      case getitem_list (h ! data self) [wind_speed_col, wind_dir_col] of
        Inl e \<Rightarrow> (Inl e, h)
      | Inr sel \<Rightarrow>
          let (wind_data, h1) = alloc h (dropna sel) in
          (case resolve_cmap get_cmap cmap of
             Inl e \<Rightarrow> (Inl e, h1)
           | Inr cmap' \<Rightarrow>
          (case getitem (h1 ! wind_data) wind_dir_col of
             Inl e \<Rightarrow> (Inl e, h1)
           | Inr dir \<Rightarrow>
          (case getitem (h1 ! wind_data) wind_speed_col of
             Inl e \<Rightarrow> (Inl e, h1)
           | Inr var \<Rightarrow>
          (Inr \<lparr>bar_direction = dir, bar_var = var, bar_normed = True,
                bar_bins = bins', bar_cmap = cmap'\<rparr>, h1)))))"

section \<open>The chart in closed form\<close>

text \<open>
  The definitions of this section are not steps of the methods. They name what the
  methods compute, and the lemmas below prove that they do: edge \<open>i\<close> of \<open>n\<close> sectors is
  the float \<open>i\<close> times the float \<open>360 / n\<close>, the last edge being 360; sector \<open>k\<close> is the
  half-open interval from edge \<open>k\<close> to edge \<open>k + 1\<close>; its label joins the two edges
  truncated to integers; its mean is the mean speed of the rows that have a speed and a
  direction and whose direction lies in the sector.
\<close>

definition sector_edge :: "nat \<Rightarrow> nat \<Rightarrow> real" where
  "sector_edge n i = (if i = n then 360 else fl (real i * fl (360 / real n)))"

definition sector_name :: "nat \<Rightarrow> nat \<Rightarrow> string" where
  "sector_name n k = str_int \<lfloor>sector_edge n k\<rfloor> @ ''-'' @ str_int \<lfloor>sector_edge n (Suc k)\<rfloor>"

definition sector_angle :: "nat \<Rightarrow> nat \<Rightarrow> real" where
  "sector_angle n i = fl (real i * fl (2 * np_pi / real n))"

text \<open>The rows (speed, direction) in which neither value is missing, in order.\<close>

definition complete_rows :: "real option list \<Rightarrow> real option list \<Rightarrow> (real \<times> real) list" where
  "complete_rows S D =
     List.map_filter (\<lambda>(s, d). case s of None \<Rightarrow> None
        | Some s' \<Rightarrow> (case d of None \<Rightarrow> None | Some d' \<Rightarrow> Some (s', d'))) (zip S D)"

definition sector_speeds :: "nat \<Rightarrow> nat \<Rightarrow> (real \<times> real) list \<Rightarrow> real list" where
  "sector_speeds n k rows =
     map fst (filter (\<lambda>(s, d). sector_edge n k \<le> d \<and> d < sector_edge n (Suc k)) rows)"

definition sector_means :: "nat \<Rightarrow> (real \<times> real) list \<Rightarrow> real option list" where
  "sector_means n rows = map (\<lambda>k. mean (sector_speeds n k rows)) [0..<n]"

definition radial_chart_of :: "nat \<Rightarrow> (real \<times> real) list \<Rightarrow> radial_chart" where
  "radial_chart_of n rows =
     \<lparr>fill_angles = map (sector_angle n) [0..<n] @ [0],
      fill_values = Array1 (sector_means n rows @ [mean (sector_speeds n 0 rows)]),
      xticks = map (sector_angle n) [0..<n],
      xticklabels = map (sector_name n) [0..<n]\<rparr>"

text \<open>
  A frame with one float column of speeds \<open>S\<close> named \<open>ws\<close> and one float column of
  directions \<open>D\<close> named \<open>wd\<close>, of the same length; the speed column is not the column
  \<^verbatim>\<open>sector\<close> that the method adds. Other columns are free.
\<close>

definition wind_columns ::
  "frame \<Rightarrow> string \<Rightarrow> string \<Rightarrow> real option list \<Rightarrow> real option list \<Rightarrow> bool" where
  "wind_columns fr ws wd S D \<longleftrightarrow>
     lookup_cols fr ws = [(ws, Floats S)] \<and> lookup_cols fr wd = [(wd, Floats D)] \<and>
     length S = length D \<and> ws \<noteq> wd \<and> ws \<noteq> ''sector''"

text \<open>
  The values as a list of rows (a row of one number for a one-dimensional array), and
  the comparison \<^verbatim>\<open>==\<close> of floats, in which NaN is equal to nothing.
\<close>

definition array_rows :: "ndarray \<Rightarrow> real option list list" where
  "array_rows a = (case a of Array1 xs \<Rightarrow> map (\<lambda>x. [x]) xs | Array2 rows \<Rightarrow> rows)"



section \<open>The rounding: error, exact cases\<close>

lemma powi2_pos: "0 < (2::real) powi k"
  by (simp add: zero_less_power_int)

lemma powi2_Suc: "(2::real) powi (k + 1) = 2 * 2 powi k"
  by (simp add: power_int_add)

lemma powi2_pred: "(2::real) powi (k - 1) = 2 powi k / 2"
  by (simp add: power_int_diff)

lemma binade_up_bounds:
  assumes "1 \<le> x" "x < 2 ^ f"
  shows "2 powi (binade_up f x) \<le> x \<and> x < 2 powi (binade_up f x + 1)"
  using assms
proof (induction f arbitrary: x)
  case 0
  then show ?case by simp
next
  case (Suc f)
  show ?case
  proof (cases "2 \<le> x")
    case True
    then have "1 \<le> x / 2" "x / 2 < 2 ^ f" using Suc.prems by simp_all
    from Suc.IH[OF this] have
      "2 powi (binade_up f (x / 2)) \<le> x / 2 \<and> x / 2 < 2 powi (binade_up f (x / 2) + 1)" .
    then have "2 * 2 powi (binade_up f (x / 2)) \<le> x
        \<and> x < 2 * 2 powi (binade_up f (x / 2) + 1)" by simp
    then have "2 powi (binade_up f (x / 2) + 1) \<le> x
        \<and> x < 2 powi (binade_up f (x / 2) + 1 + 1)" by (simp only: powi2_Suc)
    then show ?thesis using True by (simp only: binade_up.simps if_True)
  next
    case False
    then show ?thesis using Suc.prems by simp
  qed
qed

lemma binade_down_bounds:
  assumes "0 < x" "x < 2" "1 \<le> x * 2 ^ f"
  shows "2 powi (binade_down f x) \<le> x \<and> x < 2 powi (binade_down f x + 1)"
  using assms
proof (induction f arbitrary: x)
  case 0
  then show ?case by simp
next
  case (Suc f)
  show ?case
  proof (cases "x < 1")
    case True
    then have "0 < 2 * x" "2 * x < 2" "1 \<le> (2 * x) * 2 ^ f"
      using Suc.prems by (simp_all add: mult.assoc mult.left_commute)
    from Suc.IH[OF this] have
      "2 powi (binade_down f (2 * x)) \<le> 2 * x \<and> 2 * x < 2 powi (binade_down f (2 * x) + 1)" .
    then have "2 powi (binade_down f (2 * x)) / 2 \<le> x
        \<and> x < 2 powi (binade_down f (2 * x) + 1) / 2" by simp
    then have "2 powi (binade_down f (2 * x) - 1) \<le> x
        \<and> x < 2 powi (binade_down f (2 * x) + 1 - 1)" by (simp only: powi2_pred)
    then show ?thesis using True by (simp only: binade_down.simps if_True) simp
  next
    case False
    then show ?thesis using Suc.prems by simp
  qed
qed

lemma less_two_power_nat_ceiling: "0 \<le> x \<Longrightarrow> x < 2 ^ nat \<lceil>x\<rceil>" for x :: real
proof -
  assume "0 \<le> x"
  have "x \<le> real_of_int \<lceil>x\<rceil>" by (rule le_of_int_ceiling)
  also have "\<dots> = real (nat \<lceil>x\<rceil>)" using \<open>0 \<le> x\<close> by simp
  also have "\<dots> < 2 ^ nat \<lceil>x\<rceil>" by (rule of_nat_less_two_power)
  finally show ?thesis .
qed

lemma binade_bounds:
  assumes "0 < x"
  shows "2 powi (binade x) \<le> x \<and> x < 2 powi (binade x + 1)"
proof (cases "1 \<le> x")
  case True
  then show ?thesis
    using binade_up_bounds[OF True less_two_power_nat_ceiling[of x]] by (simp add: binade_def)
next
  case False
  have "1 / x < 2 ^ nat \<lceil>1 / x\<rceil>" using assms by (intro less_two_power_nat_ceiling) simp
  then have "1 \<le> x * 2 ^ nat \<lceil>1 / x\<rceil>" using assms by (simp add: field_simps)
  then show ?thesis
    using binade_down_bounds[of x "nat \<lceil>1 / x\<rceil>"] assms False by (simp add: binade_def)
qed

lemma binade_unique:
  assumes "0 < x" "2 powi k \<le> x" "x < 2 powi (k + 1)"
  shows "binade x = k"
proof -
  note b = binade_bounds[OF assms(1)]
  have "(2::real) powi k < 2 powi (binade x + 1)" using assms(2) b by linarith
  then have "k < binade x + 1"
    using power_int_increasing[of "binade x + 1" k "2::real"] by (cases "k < binade x + 1") auto
  moreover have "(2::real) powi (binade x) < 2 powi (k + 1)" using assms(3) b by linarith
  then have "binade x < k + 1"
    using power_int_increasing[of "k + 1" "binade x" "2::real"] by (cases "binade x < k + 1") auto
  ultimately show ?thesis by simp
qed

lemma rne_error: "\<bar>of_int (rne m) - m\<bar> \<le> 1 / 2"
proof -
  have "of_int \<lfloor>m\<rfloor> \<le> m" "m < of_int \<lfloor>m\<rfloor> + 1" by linarith+
  then show ?thesis by (auto simp: rne_def Let_def)
qed

lemma rne_of_int: "rne (of_int z) = z"
  by (simp add: rne_def)

lemma rne_nonneg: "0 \<le> m \<Longrightarrow> 0 \<le> rne m"
  by (auto simp: rne_def Let_def)

lemma rne_le: "m \<le> of_int z \<Longrightarrow> rne m \<le> z"
proof -
  assume a: "m \<le> of_int z"
  have f: "\<lfloor>m\<rfloor> \<le> z" using a by (simp add: floor_le_iff)
  show ?thesis
  proof (cases "\<lfloor>m\<rfloor> = z")
    case True
    then have "m = of_int z" using a by (metis of_int_floor_le order_antisym)
    then show ?thesis by (simp add: rne_of_int)
  next
    case False
    then have "\<lfloor>m\<rfloor> + 1 \<le> z" using f by simp
    then show ?thesis by (auto simp: rne_def Let_def)
  qed
qed

lemma rne_ge: "of_int z \<le> m \<Longrightarrow> z \<le> rne m"
proof -
  assume "of_int z \<le> m"
  then have "z \<le> \<lfloor>m\<rfloor>" by (simp add: le_floor_iff)
  then show ?thesis by (auto simp: rne_def Let_def)
qed

lemma fl_zero: "fl 0 = 0"
  by (simp add: fl_def)

lemma fl_minus: "fl (- x) = - fl x"
  by (simp add: fl_def Let_def)

lemma fl_pos:
  assumes "0 < x" "2 powi k \<le> x" "x < 2 powi (k + 1)"
  shows "fl x = of_int (rne (x / 2 powi (k - 52))) * 2 powi (k - 52)"
  using assms binade_unique[OF assms] by (simp add: fl_def Let_def)

lemma fl_error_pos:
  assumes "0 < x"
  shows "\<bar>fl x - x\<bar> \<le> x / 2 ^ 53"
proof -
  define b where "b = binade x"
  define q :: real where "q = 2 powi (b - 52)"
  have q: "0 < q" unfolding q_def by (rule powi2_pos)
  note bb = binade_bounds[OF assms, folded b_def]
  have f: "fl x = of_int (rne (x / q)) * q"
    unfolding q_def using fl_pos[OF assms] bb by simp
  have "\<bar>fl x - x\<bar> = \<bar>of_int (rne (x / q)) - x / q\<bar> * q"
  proof -
    have "fl x - x = (of_int (rne (x / q)) - x / q) * q" using q by (simp add: f field_simps)
    then show ?thesis using q by (simp add: abs_mult)
  qed
  also have "\<dots> \<le> (1 / 2) * q" using rne_error[of "x / q"] q by (intro mult_right_mono) simp_all
  also have "\<dots> = 2 powi b / 2 ^ 53"
  proof -
    have "q = 2 powi b / 2 ^ 52" unfolding q_def by (simp add: power_int_diff)
    then show ?thesis by simp
  qed
  also have "\<dots> \<le> x / 2 ^ 53" using bb by (simp add: divide_right_mono)
  finally show ?thesis .
qed

lemma fl_error: "\<bar>fl x - x\<bar> \<le> \<bar>x\<bar> / 2 ^ 53"
proof -
  consider "x = 0" | "0 < x" | "x < 0" by linarith
  then show ?thesis
  proof cases
    case 1
    then show ?thesis by (simp add: fl_zero)
  next
    case 2
    then show ?thesis using fl_error_pos[OF 2] by simp
  next
    case 3
    then have "0 < - x" by simp
    from fl_error_pos[OF this] show ?thesis using 3 by (simp add: fl_minus)
  qed
qed

lemma fl_nonneg: "0 \<le> x \<Longrightarrow> 0 \<le> fl x"
proof -
  assume "0 \<le> x"
  show ?thesis
  proof (cases "x = 0")
    case True
    then show ?thesis by (simp add: fl_zero)
  next
    case False
    then have x: "0 < x" using \<open>0 \<le> x\<close> by simp
    have "0 \<le> rne (x / 2 powi (binade x - 52))"
      using x powi2_pos[of "binade x - 52"] by (intro rne_nonneg) simp
    then show ?thesis using x powi2_pos[of "binade x - 52"] by (simp add: fl_def Let_def)
  qed
qed

lemma fl_exact_pos:
  assumes "0 < m" "m \<le> 2 ^ 53"
  shows "fl (of_int m * 2 powi e) = of_int m * 2 powi e"
proof -
  define x :: real where "x = of_int m * 2 powi e"
  have x: "0 < x" unfolding x_def using assms(1) powi2_pos[of e] by simp
  define b where "b = binade x"
  note bb = binade_bounds[OF x, folded b_def]
  have "\<exists>z. x / 2 powi (b - 52) = of_int z"
  proof (cases "b - 52 \<le> e")
    case True
    have "x / 2 powi (b - 52) = of_int m * 2 powi (e - (b - 52))"
      unfolding x_def by (simp add: power_int_diff)
    also have "\<dots> = of_int m * 2 ^ nat (e - (b - 52))"
      using True by (simp add: power_int_nonneg_exp)
    also have "\<dots> = of_int (m * 2 ^ nat (e - (b - 52)))" by simp
    finally show ?thesis by blast
  next
    case False
    then have "e + 53 \<le> b" by simp
    then have "(2::real) powi (e + 53) \<le> 2 powi b" by (intro power_int_increasing) simp_all
    then have "(2::real) powi (e + 53) \<le> of_int m * 2 powi e" using bb unfolding x_def by linarith
    then have "2 ^ 53 * (2::real) powi e \<le> of_int m * 2 powi e"
      by (simp add: power_int_add mult.commute)
    then have "(2::real) ^ 53 \<le> of_int m" using powi2_pos[of e] by simp
    moreover have "real_of_int m \<le> 2 ^ 53" using assms(2) by (metis of_int_le_iff of_int_numeral of_int_power)
    ultimately have m: "real_of_int m = 2 ^ 53" by linarith
    then have xe: "x = 2 powi (e + 53)" unfolding x_def by (simp add: power_int_add mult.commute)
    have "binade x = e + 53"
    proof (rule binade_unique[OF x])
      show "2 powi (e + 53) \<le> x" by (simp add: xe)
      show "x < 2 powi (e + 53 + 1)"
        unfolding xe by (rule power_int_strict_increasing) simp_all
    qed
    then have b52: "b - 52 = e + 1" by (simp add: b_def)
    have "x / 2 powi (b - 52) = 2 powi (e + 53) / 2 powi (e + 1)" unfolding b52 xe ..
    also have "\<dots> = 2 powi (e + 53 - (e + 1))"
      using power_int_diff[of "2::real" "e + 53" "e + 1"] by simp
    also have "\<dots> = 2 powi 52" by simp
    also have "\<dots> = of_int (2 ^ 52)" by simp
    finally show ?thesis by blast
  qed
  then obtain z where z: "x / 2 powi (b - 52) = of_int z" by blast
  have "fl x = of_int (rne (x / 2 powi (b - 52))) * 2 powi (b - 52)"
    using x by (simp add: fl_def Let_def b_def)
  also have "\<dots> = of_int z * 2 powi (b - 52)" by (simp add: z rne_of_int)
  also have "\<dots> = x" using z powi2_pos[of "b - 52"] by (simp add: field_simps)
  finally show ?thesis by (simp add: x_def)
qed

lemma fl_exact:
  assumes "\<bar>m\<bar> \<le> 2 ^ 53"
  shows "fl (of_int m * 2 powi e) = of_int m * 2 powi e"
proof -
  consider "m = 0" | "0 < m" | "m < 0" by linarith
  then show ?thesis
  proof cases
    case 1
    then show ?thesis by (simp add: fl_zero)
  next
    case 2
    then show ?thesis using fl_exact_pos[of m e] assms by simp
  next
    case 3
    then have "fl (of_int (- m) * 2 powi e) = of_int (- m) * 2 powi e"
      using fl_exact_pos[of "- m" e] assms by simp
    then show ?thesis using fl_minus[of "of_int m * 2 powi e"] by simp
  qed
qed

lemma fl_of_int: "\<bar>m\<bar> \<le> 2 ^ 53 \<Longrightarrow> fl (of_int m) = of_int m"
  using fl_exact[of m 0] by simp

lemma fl_of_nat: "n \<le> 2 ^ 53 \<Longrightarrow> fl (real n) = real n"
  using fl_of_int[of "int n"] by simp

lemma fl_fl: "fl (fl x) = fl x"
proof -
  have pos: "fl (fl x) = fl x" if x: "0 < x" for x
  proof -
    define b where "b = binade x"
    define q :: real where "q = 2 powi (b - 52)"
    note bb = binade_bounds[OF x, folded b_def]
    have "x / q < 2 ^ 53"
    proof -
      have "x / q < 2 powi (b + 1) / 2 powi (b - 52)"
        unfolding q_def using bb powi2_pos[of "b - 52"] by (simp add: divide_strict_right_mono)
      also have "\<dots> = 2 powi (b + 1 - (b - 52))"
        using power_int_diff[of "2::real" "b + 1" "b - 52"] by simp
      also have "\<dots> = 2 powi 53" by simp
      finally show ?thesis by simp
    qed
    then have "x / q \<le> of_int (2 ^ 53)" by simp
    then have u: "rne (x / q) \<le> 2 ^ 53" by (rule rne_le)
    have "0 \<le> x / q" using x powi2_pos[of "b - 52"] by (simp add: q_def)
    then have l: "0 \<le> rne (x / q)" by (rule rne_nonneg)
    have f: "fl x = of_int (rne (x / q)) * 2 powi (b - 52)"
      using x by (simp add: fl_def Let_def b_def q_def)
    show ?thesis unfolding f using fl_exact[of "rne (x / q)" "b - 52"] l u by simp
  qed
  consider "x = 0" | "0 < x" | "x < 0" by linarith
  then show ?thesis
  proof cases
    case 1
    then show ?thesis by (simp add: fl_zero)
  next
    case 2
    then show ?thesis by (rule pos)
  next
    case 3
    then have "fl (fl (- x)) = fl (- x)" by (intro pos) simp
    then show ?thesis by (simp add: fl_minus)
  qed
qed

section \<open>The edges that linspace computes\<close>

text \<open>
  Every edge is within \<open>2\<^sup>-\<^sup>4\<^sup>3\<close> of the exact fraction, so up to 720 sectors the edges
  increase strictly, from 0 to 360.
\<close>

lemma fl_pos_gt: "0 < x \<Longrightarrow> 0 < fl x"
proof -
  assume x: "0 < x"
  have "\<bar>fl x - x\<bar> \<le> x / 2 ^ 53" using fl_error[of x] x by simp
  then have "x - x / 2 ^ 53 \<le> fl x" by linarith
  moreover have "0 < x - x / 2 ^ 53" using x by (simp add: field_simps)
  ultimately show ?thesis by linarith
qed

lemma fl_360: "fl 360 = 360"
  using fl_of_int[of 360] by simp

lemma step_error:
  assumes "0 < n"
  shows "\<bar>fl (360 / real n) - 360 / real n\<bar> \<le> 360 / 2 ^ 53"
proof -
  have "\<bar>fl (360 / real n) - 360 / real n\<bar> \<le> \<bar>360 / real n\<bar> / 2 ^ 53" by (rule fl_error)
  also have "\<dots> \<le> 360 / 2 ^ 53"
  proof -
    have "1 \<le> real n" using assms by simp
    then have "360 / real n \<le> 360" by (simp add: field_simps)
    then show ?thesis by (simp add: divide_right_mono)
  qed
  finally show ?thesis .
qed

lemma sector_edge_error:
  assumes "0 < n" "i \<le> n"
  shows "\<bar>sector_edge n i - 360 * real i / real n\<bar> \<le> 1 / 2 ^ 43"
proof (cases "i = n")
  case True
  then show ?thesis using assms by (simp add: sector_edge_def)
next
  case False
  define s where "s = fl (360 / real n)"
  define u :: real where "u = 1 / 2 ^ 53"
  have n: "0 < real n" using assms by simp
  have ri: "0 \<le> real i" "real i \<le> real n" using assms by simp_all
  have q: "0 \<le> 360 / real n" using n by simp
  have s0: "0 \<le> s" unfolding s_def using q by (rule fl_nonneg)
  have se: "\<bar>s - 360 / real n\<bar> \<le> (360 / real n) * u"
    unfolding s_def u_def using fl_error[of "360 / real n"] q by simp
  have in360: "real i * (360 / real n) \<le> 360"
  proof -
    have "real i * (360 / real n) \<le> real n * (360 / real n)"
      using ri q by (intro mult_right_mono) simp_all
    then show ?thesis using n by simp
  qed
  have e1: "\<bar>real i * s - real i * (360 / real n)\<bar> \<le> 360 * u"
  proof -
    have "real i * s - real i * (360 / real n) = real i * (s - 360 / real n)"
      by (simp only: right_diff_distrib)
    then have "\<bar>real i * s - real i * (360 / real n)\<bar> = \<bar>real i\<bar> * \<bar>s - 360 / real n\<bar>"
      by (simp only: abs_mult)
    also have "\<dots> = real i * \<bar>s - 360 / real n\<bar>" by simp
    finally have "\<bar>real i * s - real i * (360 / real n)\<bar> = real i * \<bar>s - 360 / real n\<bar>" .
    then have "\<bar>real i * s - real i * (360 / real n)\<bar> = real i * \<bar>s - 360 / real n\<bar>" .
    also have "\<dots> \<le> real i * ((360 / real n) * u)" using se ri by (intro mult_left_mono) simp_all
    also have "\<dots> = (real i * (360 / real n)) * u" by simp
    also have "\<dots> \<le> 360 * u" using in360 by (intro mult_right_mono) (simp_all add: u_def)
    finally show ?thesis .
  qed
  have is_le: "real i * s \<le> 360 + 360 * u" using e1 in360 by linarith
  have is0: "0 \<le> real i * s" using ri s0 by simp
  have e2: "\<bar>fl (real i * s) - real i * s\<bar> \<le> (360 + 360 * u) * u"
  proof -
    have "\<bar>fl (real i * s) - real i * s\<bar> \<le> (real i * s) * u"
      unfolding u_def using fl_error[of "real i * s"] is0 by simp
    also have "\<dots> \<le> (360 + 360 * u) * u" using is_le by (intro mult_right_mono) (simp_all add: u_def)
    finally show ?thesis .
  qed
  have "\<bar>fl (real i * s) - real i * (360 / real n)\<bar> \<le> 360 * u + (360 + 360 * u) * u"
    using e1 e2 by linarith
  also have "\<dots> \<le> 1 / 2 ^ 43" unfolding u_def by simp
  finally have "\<bar>fl (real i * s) - real i * (360 / real n)\<bar> \<le> 1 / 2 ^ 43" .
  moreover have "real i * (360 / real n) = 360 * real i / real n" by simp
  moreover have "sector_edge n i = fl (real i * s)" using False by (simp add: sector_edge_def s_def)
  ultimately show ?thesis by (simp only:)
qed

lemma sector_edge_0: "0 < n \<Longrightarrow> sector_edge n 0 = 0"
  by (simp add: sector_edge_def fl_zero)

lemma sector_edge_top: "sector_edge n n = 360"
  by (simp add: sector_edge_def)

lemma sector_edge_nonneg: "0 \<le> sector_edge n i"
  unfolding sector_edge_def
  by (auto intro!: fl_nonneg mult_nonneg_nonneg)

lemma sector_edge_step:
  assumes "0 < n" "n \<le> 720" "i < n"
  shows "sector_edge n i + 1 / 2 - 1 / 2 ^ 42 \<le> sector_edge n (Suc i)"
proof -
  have a: "\<bar>sector_edge n i - 360 * real i / real n\<bar> \<le> 1 / 2 ^ 43"
    using sector_edge_error[of n i] assms by simp
  have b: "\<bar>sector_edge n (Suc i) - 360 * real (Suc i) / real n\<bar> \<le> 1 / 2 ^ 43"
    using sector_edge_error[of n "Suc i"] assms by simp
  define X where "X = 360 * real i / real n"
  define Y where "Y = 360 * real (Suc i) / real n"
  define w where "w = 360 / real n"
  have "real n \<le> 720" using assms by simp
  then have w: "1 / 2 \<le> w" unfolding w_def using assms(1) by (simp add: field_simps)
  have Y: "Y = X + w" unfolding X_def Y_def w_def
    by (simp add: add_divide_distrib algebra_simps)
  have d: "(1::real) / 2 ^ 42 = 1 / 2 ^ 43 + 1 / 2 ^ 43" by simp
  from a have a': "sector_edge n i \<le> X + 1 / 2 ^ 43" unfolding X_def by linarith
  from b have b': "Y - 1 / 2 ^ 43 \<le> sector_edge n (Suc i)" unfolding Y_def by linarith
  show ?thesis using a' b' Y w unfolding d by linarith
qed

lemma sector_edge_mono:
  assumes "0 < n" "n \<le> 720" "i < j" "j \<le> n"
  shows "sector_edge n i < sector_edge n j"
  using assms(3,4)
proof (induction j)
  case 0
  then show ?case by simp
next
  case (Suc j)
  have st: "sector_edge n j < sector_edge n (Suc j)"
    using sector_edge_step[OF assms(1,2), of j] Suc.prems by simp
  show ?case
  proof (cases "i = j")
    case True
    then show ?thesis using st by simp
  next
    case False
    then have "sector_edge n i < sector_edge n j" using Suc by simp
    then show ?thesis using st by linarith
  qed
qed

lemma sector_edge_mono_le:
  assumes "0 < n" "n \<le> 720" "i \<le> j" "j \<le> n"
  shows "sector_edge n i \<le> sector_edge n j"
  using sector_edge_mono[OF assms(1,2), of i j] assms(3,4) by (cases "i = j") auto

lemma bin_edges_eq:
  assumes "0 < n"
  shows "linspace 0 360 (int n + 1) True = Inr (map (sector_edge n) [0..<Suc n])"
proof -
  have a: "nat (int n + 1) = Suc n" by simp
  have st: "fl (360 / real n) \<noteq> 0" using fl_pos_gt[of "360 / real n"] assms by simp
  have c: "map (\<lambda>i. if 0 < int n + 1 - 1
             then (if fl (fl (360 - 0) / real_of_int (int n + 1 - 1)) = 0
                   then fl (fl (fl (real i / real_of_int (int n + 1 - 1)) * fl (360 - 0)) + 0)
                   else fl (fl (real i * fl (fl (360 - 0) / real_of_int (int n + 1 - 1))) + 0))
             else fl (fl (real i * fl (360 - 0)) + 0)) [0..<n]
        = map (sector_edge n) [0..<n]"
    using assms st by (simp add: fl_360 fl_fl sector_edge_def)
  have f: "1 < int n + 1" "\<not> int n + 1 < 0" using assms by simp_all
  show ?thesis
    unfolding linspace_def Let_def a
    using c f by (simp add: butlast_append sector_edge_top)
qed

section \<open>The decimal text of a number determines the number\<close>

text \<open>
  Two labels are equal only if their boundaries are: the digits do not contain the
  hyphen that joins them.
\<close>

lemma digit_char_inj: "a < 10 \<Longrightarrow> b < 10 \<Longrightarrow> digit_char a = digit_char b \<Longrightarrow> a = b"
proof -
  assume a: "a < 10" and b: "b < 10" and e: "digit_char a = digit_char b"
  have A: "a \<in> {0,1,2,3,4,5,6,7,8,9}" using a by auto
  have B: "b \<in> {0,1,2,3,4,5,6,7,8,9}" using b by auto
  show ?thesis using A B e unfolding digit_char_def by auto
qed

lemma digit_char_not_minus: "d < 10 \<Longrightarrow> digit_char d \<noteq> CHR ''-''"
proof -
  assume a: "d < 10"
  have A: "d \<in> {0,1,2,3,4,5,6,7,8,9}" using a by auto
  show ?thesis using A unfolding digit_char_def by auto
qed

lemma str_nat_not_Nil: "str_nat n \<noteq> []"
  by (subst str_nat.simps) simp

lemma str_nat_no_minus: "CHR ''-'' \<notin> set (str_nat n)"
proof (induction n rule: str_nat.induct)
  case (1 n)
  show ?case
  proof (cases "n < 10")
    case True
    then show ?thesis using digit_char_not_minus[of n] by (subst str_nat.simps) auto
  next
    case False
    then show ?thesis using 1 digit_char_not_minus[of "n mod 10"]
      by (subst str_nat.simps) auto
  qed
qed

lemma str_nat_inj: "str_nat m = str_nat n \<Longrightarrow> m = n"
proof (induction m arbitrary: n rule: str_nat.induct)
  case (1 m)
  show ?case
  proof (cases "m < 10")
    case True
    note m = this
    show ?thesis
    proof (cases "n < 10")
      case True
      with m 1(2) show ?thesis
        using digit_char_inj[of m n] by (simp add: str_nat.simps[of m] str_nat.simps[of n])
    next
      case False
      with m 1(2) show ?thesis
        using str_nat_not_Nil[of "n div 10"] by (simp add: str_nat.simps[of m] str_nat.simps[of n])
    qed
  next
    case False
    note m = this
    show ?thesis
    proof (cases "n < 10")
      case True
      with m 1(2) show ?thesis
        using str_nat_not_Nil[of "m div 10"] by (simp add: str_nat.simps[of m] str_nat.simps[of n])
    next
      case False
      with m 1(2) have e: "str_nat (m div 10) = str_nat (n div 10)" "digit_char (m mod 10) = digit_char (n mod 10)"
        by (simp_all add: str_nat.simps[of m] str_nat.simps[of n])
      from 1(1)[OF m e(1)] have "m div 10 = n div 10" .
      moreover from e(2) have "m mod 10 = n mod 10" using digit_char_inj[of "m mod 10" "n mod 10"] by simp
      ultimately show ?thesis by (metis div_mult_mod_eq)
    qed
  qed
qed

lemma split_at_minus:
  assumes "CHR ''-'' \<notin> set a" "CHR ''-'' \<notin> set c" "a @ CHR ''-'' # b = c @ CHR ''-'' # d"
  shows "a = c \<and> b = d"
  using assms
proof (induction a arbitrary: c)
  case Nil
  then show ?case by (cases c) auto
next
  case (Cons x a)
  then show ?case by (cases c) auto
qed

lemma sector_label_inj:
  assumes "0 \<le> a" "0 \<le> b" "0 \<le> c" "0 \<le> d"
    and "str_int a @ ''-'' @ str_int b = str_int c @ ''-'' @ str_int d"
  shows "a = c \<and> b = d"
proof -
  from assms have "str_nat (nat a) @ CHR ''-'' # str_nat (nat b) = str_nat (nat c) @ CHR ''-'' # str_nat (nat d)"
    by (simp add: str_int_def)
  then have "str_nat (nat a) = str_nat (nat c) \<and> str_nat (nat b) = str_nat (nat d)"
    using split_at_minus str_nat_no_minus by blast
  then show ?thesis using assms(1-4) str_nat_inj by (metis nat_eq_iff2 eq_nat_nat_iff)
qed

section \<open>The code of a direction\<close>

text \<open>
  On strictly increasing edges the count of edges at most \<open>d\<close> is \<open>k + 1\<close> exactly
  when \<open>d\<close> lies in sector \<open>k\<close>.
\<close>

lemma sorted_edges:
  assumes "0 < n" "n \<le> 720"
  shows "sorted (map (sector_edge n) [0..<Suc n])"
  unfolding sorted_map sorted_wrt_iff_nth_less
  using sector_edge_mono_le[OF assms] by (auto simp del: upt_Suc)

lemma distinct_edges:
  assumes "0 < n" "n \<le> 720"
  shows "distinct (map (sector_edge n) [0..<Suc n])"
proof -
  have "inj_on (sector_edge n) {0..<Suc n}"
  proof (rule inj_onI)
    fix i j assume ij: "i \<in> {0..<Suc n}" "j \<in> {0..<Suc n}" and eq: "sector_edge n i = sector_edge n j"
    show "i = j"
    proof (rule ccontr)
      assume "i \<noteq> j"
      then consider "i < j" | "j < i" by linarith
      then show False
        using sector_edge_mono[OF assms, of i j] sector_edge_mono[OF assms, of j i] eq ij
        by cases auto
    qed
  qed
  then show ?thesis by (simp add: distinct_map del: upt_Suc)
qed

lemma searchsorted_edges:
  assumes "0 < n" "n \<le> 720" "k \<le> n" "sector_edge n k \<le> x"
    and "k < n \<Longrightarrow> x < sector_edge n (Suc k)"
  shows "searchsorted_right (map (sector_edge n) [0..<Suc n]) x = k + 1"
proof -
  have sp: "[0..<Suc n] = [0..<Suc k] @ [Suc k..<Suc n]"
    using assms(3) by (metis Suc_le_mono le0 upt_add_eq_append le_add_diff_inverse)
  have all: "\<forall>b \<in> set (map (sector_edge n) [0..<Suc k]). b \<le> x"
  proof
    fix b assume "b \<in> set (map (sector_edge n) [0..<Suc k])"
    then have "\<exists>i. i < Suc k \<and> b = sector_edge n i" by (auto simp del: upt_Suc)
    then obtain i where "i < Suc k" "b = sector_edge n i" by blast
    then show "b \<le> x"
      using sector_edge_mono_le[OF assms(1,2), of i k] assms(3,4) by simp
  qed
  have rest: "takeWhile (\<lambda>b. b \<le> x) (map (sector_edge n) [Suc k..<Suc n]) = []"
  proof (cases "k < n")
    case True
    then have "[Suc k..<Suc n] = Suc k # [Suc (Suc k)..<Suc n]" by (simp add: upt_conv_Cons)
    then show ?thesis using assms(5) True by simp
  next
    case False
    then show ?thesis by simp
  qed
  show ?thesis
    unfolding searchsorted_right_def
    apply (subst sp)
    apply (simp only: map_append)
    apply (subst takeWhile_append2)
    using all apply blast
    using rest apply simp
    done
qed

lemma searchsorted_below:
  assumes "0 < m" "x < sector_edge n 0"
  shows "searchsorted_right (map (sector_edge n) [0..<m]) x = 0"
proof -
  from assms(1) have "[0..<m] = 0 # [1..<m]" by (simp add: upt_conv_Cons)
  then show ?thesis using assms(2) by (simp add: searchsorted_right_def)
qed


lemma cut_code_edges_in:
  assumes "0 < n" "n \<le> 720" "k < n" "sector_edge n k \<le> d" "d < sector_edge n (Suc k)"
  shows "cut_code (map (sector_edge n) [0..<Suc n]) (Some d) = Some k"
  using searchsorted_edges[of n k d] assms
  by (simp add: cut_code_def)

lemma cut_code_edges_high:
  assumes "0 < n" "n \<le> 720" "360 \<le> d"
  shows "cut_code (map (sector_edge n) [0..<Suc n]) (Some d) = None"
  using searchsorted_edges[of n n d] assms
  by (simp add: cut_code_def sector_edge_top)

lemma cut_code_edges_low:
  assumes "0 < n" "d < 0"
  shows "cut_code (map (sector_edge n) [0..<Suc n]) (Some d) = None"
  using searchsorted_below[of "Suc n" d n] assms
  by (simp add: cut_code_def sector_edge_0)

lemma between_edges:
  fixes f :: "nat \<Rightarrow> real"
  assumes "f 0 \<le> d" "d < f n"
  shows "\<exists>k<n. f k \<le> d \<and> d < f (Suc k)"
  using assms
proof (induction n)
  case 0
  then show ?case by simp
next
  case (Suc n)
  show ?case
  proof (cases "d < f n")
    case True
    then obtain k where "k < n" "f k \<le> d" "d < f (Suc k)" using Suc by blast
    then show ?thesis using less_Suc_eq by blast
  next
    case False
    then show ?thesis using Suc.prems by (intro exI[of _ n]) simp
  qed
qed

lemma sector_exists:
  assumes "0 < n" "0 \<le> d" "d < 360"
  shows "\<exists>k<n. sector_edge n k \<le> d \<and> d < sector_edge n (Suc k)"
  using between_edges[of "sector_edge n" d n] assms
  by (simp add: sector_edge_0 sector_edge_top)

lemma cut_code_edges_iff:
  assumes "0 < n" "n \<le> 720"
  shows "cut_code (map (sector_edge n) [0..<Suc n]) (Some d) = Some k
     \<longleftrightarrow> k < n \<and> sector_edge n k \<le> d \<and> d < sector_edge n (Suc k)"
proof
  assume r: "k < n \<and> sector_edge n k \<le> d \<and> d < sector_edge n (Suc k)"
  then show "cut_code (map (sector_edge n) [0..<Suc n]) (Some d) = Some k"
    using cut_code_edges_in[OF assms] by blast
next
  assume l: "cut_code (map (sector_edge n) [0..<Suc n]) (Some d) = Some k"
  have "0 \<le> d" using l cut_code_edges_low[OF assms(1), of d] by (cases "d < 0") auto
  moreover have "d < 360" using l cut_code_edges_high[OF assms, of d] by (cases "360 \<le> d") auto
  ultimately obtain k' where k': "k' < n" "sector_edge n k' \<le> d" "d < sector_edge n (Suc k')"
    using sector_exists[OF assms(1)] by blast
  then have "cut_code (map (sector_edge n) [0..<Suc n]) (Some d) = Some k'"
    using cut_code_edges_in[OF assms] by blast
  with l have "k = k'" by simp
  with k' show "k < n \<and> sector_edge n k \<le> d \<and> d < sector_edge n (Suc k)" by simp
qed

section \<open>The labels\<close>

text \<open>
  Up to 720 sectors, two sectors apart span at least one degree and the labels differ
  (with 720 sectors the edges are exact halves); beyond, the first three edges are below
  1 and the first two labels are both 0-0.
\<close>

lemma sector_labels_eq:
  assumes "0 < n"
  shows "sector_labels (map (sector_edge n) [0..<Suc n]) (int n) = Inr (map (sector_name n) [0..<n])"
proof -
  have "sector_label (map (sector_edge n) [0..<Suc n]) i = sector_name n i" if "i < n" for i
  proof -
    have a: "map (sector_edge n) [0..<Suc n] ! i = sector_edge n i"
      using that by (simp del: upt_Suc)
    have b: "map (sector_edge n) [0..<Suc n] ! (i + 1) = sector_edge n (Suc i)"
      using that by (simp del: upt_Suc)
    have c: "py_int (sector_edge n j) = \<lfloor>sector_edge n j\<rfloor>" for j
      using sector_edge_nonneg[of n j] by (simp add: py_int_def)
    show ?thesis unfolding sector_label_def sector_name_def a b c ..
  qed
  then have "map (sector_label (map (sector_edge n) [0..<Suc n])) [0..<n] = map (sector_name n) [0..<n]"
    by simp
  then show ?thesis using assms by (simp add: sector_labels_def del: upt_Suc)
qed


lemma sector_edge_720: "i \<le> 720 \<Longrightarrow> sector_edge 720 i = real i / 2"
proof -
  assume i: "i \<le> 720"
  have h: "fl (360 / real 720) = 1 / 2" using fl_exact[of 1 "-1"] by (simp add: power_int_minus)
  have "fl (real i * (1 / 2)) = real i * (1 / 2)"
    using fl_exact[of "int i" "-1"] i by (simp add: power_int_minus)
  then show ?thesis using i unfolding sector_edge_def h by auto
qed

lemma sector_edge_two:
  assumes "0 < n" "n \<le> 720" "i + 2 \<le> n"
  shows "sector_edge n i + 1 \<le> sector_edge n (i + 2)"
proof (cases "n = 720")
  case True
  then show ?thesis using assms(3) by (simp add: sector_edge_720)
next
  case False
  then have "real n \<le> 719" using assms(2) by simp
  then have w: "1 + 1 / 719 \<le> 720 / real n" using assms(1) by (simp add: field_simps)
  define X where "X = 360 * real i / real n"
  define Y where "Y = 360 * real (i + 2) / real n"
  have Y: "Y = X + 720 / real n" unfolding X_def Y_def
    by (simp add: add_divide_distrib algebra_simps)
  have a: "sector_edge n i \<le> X + 1 / 2 ^ 43"
    using sector_edge_error[of n i] assms unfolding X_def by linarith
  have b: "Y - 1 / 2 ^ 43 \<le> sector_edge n (i + 2)"
    using sector_edge_error[of n "i + 2"] assms unfolding Y_def by linarith
  have d: "(1::real) / 2 ^ 43 + 1 / 2 ^ 43 \<le> 1 / 719" by simp
  show ?thesis using a b Y w d by linarith
qed

lemma sector_name_inj:
  assumes n: "0 < n" "n \<le> 720" and ij: "i < j" "j < n" and eq: "sector_name n i = sector_name n j"
  shows False
proof -
  have fl: "0 \<le> \<lfloor>sector_edge n k\<rfloor>" for k using sector_edge_nonneg[of n k] by simp
  from eq have e: "\<lfloor>sector_edge n i\<rfloor> = \<lfloor>sector_edge n j\<rfloor>" "\<lfloor>sector_edge n (Suc i)\<rfloor> = \<lfloor>sector_edge n (Suc j)\<rfloor>"
    using sector_label_inj[OF fl[of i] fl[of "Suc i"] fl[of j] fl[of "Suc j"]]
    unfolding sector_name_def by blast+
  have "sector_edge n (Suc i) \<le> sector_edge n j"
    using ij n by (intro sector_edge_mono_le) auto
  then have a: "\<lfloor>sector_edge n (Suc i)\<rfloor> \<le> \<lfloor>sector_edge n j\<rfloor>" by (rule floor_mono)
  have "sector_edge n i + 1 \<le> sector_edge n (i + 2)"
    using ij n by (intro sector_edge_two) auto
  moreover have "sector_edge n (i + 2) \<le> sector_edge n (Suc j)"
    using ij n by (intro sector_edge_mono_le) auto
  ultimately have "sector_edge n i + 1 \<le> sector_edge n (Suc j)" by linarith
  then have "\<lfloor>sector_edge n i + 1\<rfloor> \<le> \<lfloor>sector_edge n (Suc j)\<rfloor>" by (rule floor_mono)
  then have b: "\<lfloor>sector_edge n i\<rfloor> + 1 \<le> \<lfloor>sector_edge n (Suc j)\<rfloor>" by simp
  from a b e show False by linarith
qed

lemma distinct_sector_names:
  assumes "0 < n" "n \<le> 720"
  shows "distinct (map (sector_name n) [0..<n])"
proof -
  have "inj_on (sector_name n) {0..<n}"
  proof (rule inj_onI)
    fix i j assume "i \<in> {0..<n}" "j \<in> {0..<n}" and eq: "sector_name n i = sector_name n j"
    show "i = j"
    proof (rule ccontr)
      assume "i \<noteq> j"
      then consider "i < j" | "j < i" by linarith
      then show False
        using sector_name_inj[OF assms, of i j] sector_name_inj[OF assms, of j i] eq
          \<open>i \<in> {0..<n}\<close> \<open>j \<in> {0..<n}\<close> by cases auto
    qed
  qed
  then show ?thesis by (simp add: distinct_map)
qed



section \<open>The chart of a frame with a speed and a direction column\<close>

text \<open>
  On such a frame, with 1 to 720 sectors, the method returns the chart of the closed
  form.
\<close>

lemma select_wind_columns:
  assumes "wind_columns fr ws wd S D"
  shows "getitem_list fr [ws, wd] = Inr [(ws, Floats S), (wd, Floats D)]"
  using assms by (simp add: wind_columns_def)

lemma take_mask_Cons: "take_mask (b # m) (x # xs) = (if b then x # take_mask m xs else take_mask m xs)"
  by (simp add: take_mask_def)

lemma take_mask_Nil: "take_mask [] xs = []" "take_mask m [] = []"
  by (simp_all add: take_mask_def)

lemma complete_rows_Nil: "complete_rows [] [] = []"
  by (simp add: complete_rows_def List.map_filter_def)

lemma complete_rows_Cons:
  "complete_rows (s # S) (d # D) =
     (case s of None \<Rightarrow> complete_rows S D
      | Some s' \<Rightarrow> (case d of None \<Rightarrow> complete_rows S D | Some d' \<Rightarrow> (s', d') # complete_rows S D))"
  by (simp add: complete_rows_def List.map_filter_def split: option.splits)

lemma dropna_masks:
  assumes "length S = length D"
  shows "take_mask (map2 (\<and>) (map (\<lambda>x. x \<noteq> None) S)
            (map2 (\<and>) (map (\<lambda>x. x \<noteq> None) D) (replicate (length S) True))) S
          = map (Some \<circ> fst) (complete_rows S D)
       \<and> take_mask (map2 (\<and>) (map (\<lambda>x. x \<noteq> None) S)
            (map2 (\<and>) (map (\<lambda>x. x \<noteq> None) D) (replicate (length S) True))) D
          = map (Some \<circ> snd) (complete_rows S D)"
  using assms
proof (induction S D rule: list_induct2)
  case Nil
  then show ?case by (simp add: take_mask_Nil complete_rows_Nil)
next
  case (Cons s S d D)
  then show ?case
    by (cases s; cases d) (simp_all add: take_mask_Cons complete_rows_Cons)
qed

lemma dropna_wind_columns:
  assumes "length S = length D"
  shows "dropna [(ws, Floats S), (wd, Floats D)] =
     [(ws, Floats (map (Some \<circ> fst) (complete_rows S D))),
      (wd, Floats (map (Some \<circ> snd) (complete_rows S D)))]"
  using dropna_masks[OF assms]
  by (simp add: dropna_def notna_mask_def nrows_def take_rows_def)

lemma group_values_rows:
  assumes "0 < n" "n \<le> 720" "k < n"
  shows "group_values (map (cut_code (map (sector_edge n) [0..<Suc n])) (map (Some \<circ> snd) rows))
           (map (Some \<circ> fst) rows) k = sector_speeds n k rows"
proof (induction rows)
  case Nil
  then show ?case by (simp add: group_values_def sector_speeds_def List.map_filter_def)
next
  case (Cons r rows)
  obtain s d where r: "r = (s, d)" by (cases r)
  have c: "(cut_code (map (sector_edge n) [0..<Suc n]) (Some d) = Some k)
      = (sector_edge n k \<le> d \<and> d < sector_edge n (Suc k))"
    using cut_code_edges_iff[OF assms(1,2), of d k] assms(3) by simp
  from Cons show ?case
    unfolding r by (simp add: group_values_def sector_speeds_def List.map_filter_def c del: upt_Suc)
qed

lemma fl_two_pi: "fl (2 * np_pi) = 2 * np_pi"
  using fl_exact[of 7074237752028440 "-50"] by (simp add: np_pi_def power_int_minus)

lemma angles_eq:
  "linspace 0 (2 * np_pi) (int n) False = Inr (map (sector_angle n) [0..<n])"
proof (cases "n = 0")
  case True
  then show ?thesis by (simp add: linspace_def Let_def)
next
  case False
  have "0 < 2 * np_pi / real n" using False by (simp add: np_pi_def)
  then have "fl (2 * np_pi / real n) \<noteq> 0" using fl_pos_gt by fastforce
  then show ?thesis using False
    by (simp add: linspace_def Let_def sector_angle_def fl_two_pi fl_fl)
qed

lemma sector_angle_0: "sector_angle n 0 = 0"
  by (simp add: sector_angle_def fl_zero)

lemma close_seq_nonempty: "xs \<noteq> [] \<Longrightarrow> close_seq xs = Inr (xs @ [hd xs])"
  by (cases xs) (simp_all add: close_seq_def)

lemma cut_sectors:
  assumes "0 < n" "n \<le> 720"
  shows "cut (Series (Floats xs)) (map (sector_edge n) [0..<Suc n]) (map (sector_name n) [0..<n])
     = Inr (Categorical (map (sector_name n) [0..<n]) (map (cut_code (map (sector_edge n) [0..<Suc n])) xs))"
  using sorted_edges[OF assms] distinct_edges[OF assms] distinct_sector_names[OF assms]
  by (simp add: cut_def del: upt_Suc)

lemma groupby_sector:
  assumes "ws \<noteq> wd" "ws \<noteq> ''sector''"
  shows "groupby_mean (setitem [(ws, Floats vs), (wd, Floats ds)] ''sector'' (Categorical cats cs))
          ''sector'' ws
     = Inr (cats, Array1 (map (\<lambda>k. mean (group_values cs vs k)) [0..<length cats]))"
  using assms
  by (cases "wd = ''sector''")
     (simp_all add: groupby_mean_def setitem_def getitem_def lookup_cols_def del: upt_Suc)

lemma sector_means_rows:
  assumes "0 < n" "n \<le> 720"
  shows "map (\<lambda>k. mean (group_values (map (cut_code (map (sector_edge n) [0..<Suc n]) \<circ> (Some \<circ> snd)) rows)
           (map (Some \<circ> fst) rows) k)) [0..<n] = sector_means n rows"
  unfolding sector_means_def using group_values_rows[OF assms, of _ rows] by simp

lemma plot_radial_bar_chart:
  assumes n: "0 < n" "n \<le> 720" and w: "wind_columns (h ! data self) ws wd S D"
  shows "fst (plot_radial_bar self h ws wd (int n)) = Inr (radial_chart_of n (complete_rows S D))"
proof -
  have ne: "ws \<noteq> wd" "ws \<noteq> ''sector''" using w by (simp_all add: wind_columns_def)
  have len: "length S = length D" using w by (simp add: wind_columns_def)
  have g: "getitem [(ws, Floats A), (wd, Floats B)] wd = Inr (Series (Floats B))" for A B
    using ne by (simp add: getitem_def lookup_cols_def)
  have a: "map (sector_angle n) [0..<n] \<noteq> []" using n by simp
  have a0: "hd (map (sector_angle n) [0..<n]) = 0"
    using n by (simp add: hd_map upt_conv_Cons sector_angle_0)
  have v: "sector_means n rows \<noteq> []" for rows using n by (simp add: sector_means_def)
  have v0: "hd (sector_means n rows) = mean (sector_speeds n 0 rows)" for rows
    using n by (simp add: sector_means_def hd_map upt_conv_Cons)
  have e: "int n + 1 = int n + 1" ..
  show ?thesis
    unfolding plot_radial_bar_def alloc_def select_wind_columns[OF w]
    by (simp add: dropna_wind_columns[OF len] bin_edges_eq[OF n(1)] g sector_labels_eq[OF n(1)] cut_sectors[OF n]
        groupby_sector[OF ne] sector_means_rows[OF n] Let_def angles_eq close_seq_nonempty[OF a] close_seq_nonempty[OF v]
        close_values_def a0 v0 butlast_append
        radial_chart_of_def del: upt_Suc)
qed

section \<open>The heap, and the shape of the chart on any frame\<close>

lemma plot_radial_bar_heap:
  assumes "a < length h"
  shows "snd (plot_radial_bar self h ws wd nb) ! a = h ! a"
  using assms
  by (auto simp: plot_radial_bar_def alloc_def Let_def nth_append split: sum.splits prod.splits)

lemma plot_wind_rose_heap:
  assumes "a < length h"
  shows "snd (plot_wind_rose reg self h ws wd bins cmap) ! a = h ! a"
  using assms
  by (auto simp: plot_wind_rose_def alloc_def Let_def nth_append split: sum.splits prod.splits)

lemma linspace_length: "linspace a b num e = Inr xs \<Longrightarrow> length xs = nat num"
  by (auto simp: linspace_def Let_def split: if_splits)

lemma close_seq_Inr: "close_seq xs = Inr ys \<Longrightarrow> xs \<noteq> [] \<and> ys = xs @ [hd xs]"
  by (cases xs) (auto simp: close_seq_def)

lemma cut_Inr: "cut x bins labels = Inr c \<Longrightarrow> \<exists>codes. c = Categorical labels codes"
  by (auto simp: cut_def split: pd_value.splits column.splits if_splits)

lemma sector_labels_length: "sector_labels edges nb = Inr ls \<Longrightarrow> length ls = nat nb"
  by (auto simp: sector_labels_def split: if_splits)

lemma lookup_cols_set: "set (lookup_cols fr name) = {(n, c) \<in> set fr. n = name}"
  by (auto simp: lookup_cols_def)

lemma lookup_setitem: "set (lookup_cols (setitem fr name col) name) \<subseteq> {(name, col)}"
proof (cases "lookup_cols fr name = []")
  case True
  then have "{(n, c) \<in> set fr. n = name} = {}" using lookup_cols_set[of fr name] by simp
  then show ?thesis using True by (auto simp: lookup_cols_set setitem_def)
next
  case False
  then show ?thesis by (auto simp: lookup_cols_set setitem_def split: if_splits)
qed

lemma getitem_setitem:
  assumes "getitem (setitem fr name col) name = Inr (Series c)"
  shows "c = col"
proof -
  from assms obtain a where "lookup_cols (setitem fr name col) name = [(a, c)]"
    by (auto simp: getitem_def split: list.splits)
  then show ?thesis using lookup_setitem[of fr name col] by auto
qed

lemma groupby_setitem:
  assumes "groupby_mean (setitem fr key (Categorical labels codes)) key col = Inr (index, vals)"
  shows "index = labels \<and> length (array_rows vals) = length labels"
  using assms
  by (auto simp: groupby_mean_def array_rows_def
      split: sum.splits pd_value.splits column.splits option.splits
      dest!: getitem_setitem)

lemma close_values_Inr:
  "close_values a = Inr b \<Longrightarrow>
     array_rows a \<noteq> [] \<and> array_rows b = array_rows a @ [hd (array_rows a)]"
  by (cases a)
     (auto simp: close_values_def array_rows_def hd_map split: sum.splits dest!: close_seq_Inr)

lemma plot_radial_bar_shape:
  assumes "fst (plot_radial_bar self h ws wd nb) = Inr r"
  shows "1 \<le> nb \<and> length (xticklabels r) = nat nb \<and> length (xticks r) = nat nb
     \<and> length (fill_angles r) = nat nb + 1 \<and> length (array_rows (fill_values r)) = nat nb + 1
     \<and> hd (fill_angles r) = last (fill_angles r)
     \<and> hd (array_rows (fill_values r)) = last (array_rows (fill_values r))
     \<and> sector_labels (projr (linspace 0 360 (nb + 1) True)) nb = Inr (xticklabels r)"
  using assms
  apply (simp add: plot_radial_bar_def alloc_def Let_def split: sum.splits prod.splits)
  apply (auto dest!: linspace_length close_seq_Inr close_values_Inr cut_Inr sector_labels_length
      groupby_setitem)
  apply (cases "1 \<le> nb")
   apply auto
  done

section \<open>Rows taken by a mask\<close>

text \<open>
  Dropping rows that \<^verbatim>\<open>dropna\<close> would drop anyway, before the column selection,
  changes nothing after \<^verbatim>\<open>dropna\<close>; and the methods depend on the frame only through
  the selection after \<^verbatim>\<open>dropna\<close>.
\<close>

lemma take_mask_map: "take_mask m (map f xs) = map f (take_mask m xs)"
proof (induction m arbitrary: xs)
  case Nil
  then show ?case by (simp add: take_mask_Nil)
next
  case (Cons b m)
  then show ?case by (cases xs) (simp_all add: take_mask_Nil take_mask_Cons)
qed

lemma take_mask_map2:
  assumes "length m = length xs" "length xs = length ys"
  shows "take_mask m (map2 f xs ys) = map2 f (take_mask m xs) (take_mask m ys)"
  using assms by (induction m xs ys rule: list_induct3) (simp_all add: take_mask_Nil take_mask_Cons)

lemma length_take_mask:
  assumes "length m = length xs"
  shows "length (take_mask m xs) = length (filter id m)"
  using assms by (induction m xs rule: list_induct2) (simp_all add: take_mask_Nil take_mask_Cons)

lemma take_mask_replicate:
  "take_mask m (replicate (length m) True) = replicate (length (filter id m)) True"
  by (induction m) (simp_all add: take_mask_Nil take_mask_Cons)

lemma take_mask_twice:
  assumes "length m = length M" "length M = length xs" "list_all2 (\<lambda>a b. a \<longrightarrow> b) M m"
  shows "take_mask (take_mask m M) (take_mask m xs) = take_mask M xs"
  using assms by (induction m M xs rule: list_induct3) (auto simp: take_mask_Nil take_mask_Cons)

lemma col_notna_take: "col_notna (col_take m c) = take_mask m (col_notna c)"
  by (cases c) (simp_all add: take_mask_map)

lemma col_notna_length: "length (col_notna c) = col_len c"
  by (cases c) simp_all

lemma col_len_take: "length m = col_len c \<Longrightarrow> col_len (col_take m c) = length (filter id m)"
  by (cases c) (simp_all add: length_take_mask)

lemma col_take_twice:
  assumes "length m = length M" "length M = col_len c" "list_all2 (\<lambda>a b. a \<longrightarrow> b) M m"
  shows "col_take (take_mask m M) (col_take m c) = col_take M c"
  using assms by (cases c) (simp_all add: take_mask_twice)

lemma foldr_mask_length:
  assumes "\<forall>(n, c) \<in> set fr. col_len c = N" "length acc = N"
  shows "length (foldr (\<lambda>(n, c) acc. map2 (\<and>) (col_notna c) acc) fr acc) = N"
  using assms by (induction fr) (auto simp: col_notna_length)

lemma foldr_mask_take:
  assumes "\<forall>(n, c) \<in> set fr. col_len c = length m" "length acc = length m"
  shows "foldr (\<lambda>(n, c) acc. map2 (\<and>) (col_notna c) acc) (take_rows m fr) (take_mask m acc)
       = take_mask m (foldr (\<lambda>(n, c) acc. map2 (\<and>) (col_notna c) acc) fr acc)"
  using assms
proof (induction fr)
  case Nil
  then show ?case by (simp add: take_rows_def)
next
  case (Cons p fr)
  obtain n c where p: "p = (n, c)" by (cases p)
  have len: "length (foldr (\<lambda>(n, c) acc. map2 (\<and>) (col_notna c) acc) fr acc) = length m"
    using foldr_mask_length[of fr "length m" acc] Cons.prems by auto
  have IH: "foldr (\<lambda>(n, c) acc. map2 (\<and>) (col_notna c) acc) (take_rows m fr) (take_mask m acc)
       = take_mask m (foldr (\<lambda>(n, c) acc. map2 (\<and>) (col_notna c) acc) fr acc)"
    using Cons by auto
  have c: "col_len c = length m" using Cons.prems p by auto
  have "take_mask m (map2 (\<and>) (col_notna c) (foldr (\<lambda>(n, c) acc. map2 (\<and>) (col_notna c) acc) fr acc))
      = map2 (\<and>) (take_mask m (col_notna c)) (take_mask m (foldr (\<lambda>(n, c) acc. map2 (\<and>) (col_notna c) acc) fr acc))"
    by (rule take_mask_map2) (simp_all add: col_notna_length c len)
  then show ?case
    using IH unfolding p by (simp add: take_rows_def col_notna_take)
qed

lemma nrows_take_rows:
  assumes "\<forall>(n, c) \<in> set fr. col_len c = length m"
  shows "replicate (nrows (take_rows m fr)) True = take_mask m (replicate (nrows fr) True)
         \<and> length (replicate (nrows fr) True) = (if fr = [] then 0 else length m)"
proof (cases fr)
  case Nil
  then show ?thesis by (simp add: nrows_def take_rows_def take_mask_Nil)
next
  case (Cons p fr')
  obtain n c where p: "p = (n, c)" by (cases p)
  have c: "col_len c = length m" using assms Cons p by auto
  have "nrows fr = length m" using Cons p c by (simp add: nrows_def)
  moreover have "nrows (take_rows m fr) = length (filter id m)"
    using Cons p c by (simp add: nrows_def take_rows_def col_len_take)
  ultimately show ?thesis using Cons by (simp add: take_mask_replicate)
qed

lemma notna_mask_take:
  assumes "\<forall>(n, c) \<in> set fr. col_len c = length m"
  shows "notna_mask (take_rows m fr) = take_mask m (notna_mask fr)"
proof (cases "fr = []")
  case True
  then show ?thesis by (simp add: notna_mask_def take_rows_def nrows_def take_mask_Nil)
next
  case False
  have r: "replicate (nrows (take_rows m fr)) True = take_mask m (replicate (nrows fr) True)"
    "length (replicate (nrows fr) True) = length m"
    using nrows_take_rows[OF assms] False by simp_all
  show ?thesis
    unfolding notna_mask_def r(1)
    by (rule foldr_mask_take[OF assms r(2)])
qed

lemma notna_mask_length:
  assumes "\<forall>(n, c) \<in> set fr. col_len c = N" "fr \<noteq> []"
  shows "length (notna_mask fr) = N"
proof -
  obtain n c fr' where "fr = (n, c) # fr'" using assms(2) by (cases fr) auto
  then have "nrows fr = N" using assms(1) by (simp add: nrows_def)
  then show ?thesis unfolding notna_mask_def using foldr_mask_length[OF assms(1)] by simp
qed

lemma foldr_mask_nth:
  assumes "\<forall>(n, c) \<in> set fr. col_len c = N" "length acc = N" "i < N"
    "foldr (\<lambda>(n, c) acc. map2 (\<and>) (col_notna c) acc) fr acc ! i" "(n, c) \<in> set fr"
  shows "col_notna c ! i"
  using assms
proof (induction fr)
  case Nil
  then show ?case by simp
next
  case (Cons p fr)
  obtain n' c' where p: "p = (n', c')" by (cases p)
  have len: "length (foldr (\<lambda>(n, c) acc. map2 (\<and>) (col_notna c) acc) fr acc) = N"
    using foldr_mask_length[of fr N acc] Cons.prems by auto
  have c': "length (col_notna c') = N" using Cons.prems p by (auto simp: col_notna_length)
  from Cons.prems(4) have both: "col_notna c' ! i"
    "foldr (\<lambda>(n, c) acc. map2 (\<and>) (col_notna c) acc) fr acc ! i"
    unfolding p using len c' \<open>i < N\<close> by simp_all
  show ?case
  proof (cases "(n, c) = p")
    case True
    then show ?thesis using both(1) p by simp
  next
    case False
    then have "(n, c) \<in> set fr" using Cons.prems(5) by simp
    then show ?thesis using Cons.IH Cons.prems(1,2,3) both(2) by auto
  qed
qed

lemma dropna_take_rows:
  assumes ok: "\<forall>(n, c) \<in> set fr. col_len c = length m"
    and drop: "\<forall>i<length m. \<not> m ! i \<longrightarrow> (\<exists>(n, c) \<in> set fr. \<not> col_notna c ! i)"
  shows "dropna (take_rows m fr) = dropna fr"
proof (cases "fr = []")
  case True
  then show ?thesis by (simp add: dropna_def take_rows_def)
next
  case False
  have len: "length (notna_mask fr) = length m" using notna_mask_length[OF ok False] .
  have nr: "nrows fr = length m" using False ok by (cases fr) (auto simp: nrows_def)
  have le: "list_all2 (\<lambda>a b. a \<longrightarrow> b) (notna_mask fr) m"
    unfolding list_all2_conv_all_nth
  proof (intro conjI allI impI)
    show "length (notna_mask fr) = length m" by (rule len)
  next
    fix i assume i: "i < length (notna_mask fr)" and M: "notna_mask fr ! i"
    show "m ! i"
    proof (rule ccontr)
      assume "\<not> m ! i"
      then obtain n c where nc: "(n, c) \<in> set fr" "\<not> col_notna c ! i"
        using drop i len by auto
      have "col_notna c ! i"
        using foldr_mask_nth[OF ok _ _ _ nc(1), of "replicate (nrows fr) True" i] M i len nr
        by (simp add: notna_mask_def)
      with nc(2) show False by simp
    qed
  qed
  have "col_take (take_mask m (notna_mask fr)) (col_take m c) = col_take (notna_mask fr) c"
    if "(n, c) \<in> set fr" for n c
    using col_take_twice[OF len[symmetric] _ le, of c] ok that len by auto
  then show ?thesis
    unfolding dropna_def notna_mask_take[OF ok]
    by (auto simp: take_rows_def)
qed

lemma lookup_cols_take_rows: "lookup_cols (take_rows m fr) k = take_rows m (lookup_cols fr k)"
  by (induction fr) (auto simp: lookup_cols_def take_rows_def)

lemma take_rows_simps:
  "take_rows m [] = []"
  "take_rows m (p # fr) = (fst p, col_take m (snd p)) # take_rows m fr"
  "take_rows m (fr @ fr') = take_rows m fr @ take_rows m fr'"
  by (simp_all add: take_rows_def case_prod_beta)

lemma getitem_list_take_rows:
  "getitem_list (take_rows m fr) ks = map_sum id (take_rows m) (getitem_list fr ks)"
proof (induction ks)
  case Nil
  then show ?case by (simp add: take_rows_simps)
next
  case (Cons k ks)
  show ?case
  proof (cases "lookup_cols fr k")
    case Nil
    then show ?thesis by (simp add: lookup_cols_take_rows take_rows_simps)
  next
    case (Cons c cs)
    then show ?thesis using Cons.IH
      by (cases "getitem_list fr ks") (simp_all add: lookup_cols_take_rows take_rows_simps)
  qed
qed

lemma getitem_list_set:
  "getitem_list fr ks = Inr sel \<Longrightarrow> set sel = {(n, c) \<in> set fr. n \<in> set ks}"
proof (induction ks arbitrary: sel)
  case Nil
  then show ?case by simp
next
  case (Cons k ks)
  from Cons.prems obtain c cs rest where
    l: "lookup_cols fr k = c # cs" and r: "getitem_list fr ks = Inr rest" and s: "sel = c # cs @ rest"
    by (auto split: list.splits sum.splits)
  have "set (c # cs) = {(n, c) \<in> set fr. n = k}" using l lookup_cols_set[of fr k] by simp
  moreover have "set rest = {(n, c) \<in> set fr. n \<in> set ks}" using Cons.IH[OF r] .
  ultimately show ?case unfolding s by auto
qed

lemma select_dropna_take_rows:
  assumes ok: "\<forall>(n, c) \<in> set fr. col_len c = length m"
    and drop: "\<forall>i<length m. \<not> m ! i \<longrightarrow> (\<exists>(n, c) \<in> set fr. (n = ws \<or> n = wd) \<and> \<not> col_notna c ! i)"
  shows "map_sum id dropna (getitem_list (take_rows m fr) [ws, wd])
       = map_sum id dropna (getitem_list fr [ws, wd])"
proof (cases "getitem_list fr [ws, wd]")
  case (Inl e)
  show ?thesis unfolding getitem_list_take_rows Inl by simp
next
  case (Inr sel)
  have s: "set sel = {(n, c) \<in> set fr. n = ws \<or> n = wd}"
    using getitem_list_set[OF Inr] by auto
  have "dropna (take_rows m sel) = dropna sel"
  proof (rule dropna_take_rows)
    show "\<forall>(n, c) \<in> set sel. col_len c = length m" using ok s by auto
    show "\<forall>i<length m. \<not> m ! i \<longrightarrow> (\<exists>(n, c) \<in> set sel. \<not> col_notna c ! i)"
      using drop s by fastforce
  qed
  then show ?thesis unfolding getitem_list_take_rows Inr by simp
qed

lemma plot_radial_bar_selection:
  assumes "map_sum id dropna (getitem_list (h' ! data self') [ws, wd])
         = map_sum id dropna (getitem_list (h ! data self) [ws, wd])"
  shows "fst (plot_radial_bar self' h' ws wd nb) = fst (plot_radial_bar self h ws wd nb)"
proof (cases "getitem_list (h ! data self) [ws, wd]")
  case (Inl e)
  then have "getitem_list (h' ! data self') [ws, wd] = Inl e"
    using assms by (cases "getitem_list (h' ! data self') [ws, wd]") simp_all
  then show ?thesis using Inl unfolding plot_radial_bar_def by simp
next
  case (Inr sel)
  then obtain sel' where s': "getitem_list (h' ! data self') [ws, wd] = Inr sel'" "dropna sel' = dropna sel"
    using assms by (cases "getitem_list (h' ! data self') [ws, wd]") simp_all
  show ?thesis
    unfolding plot_radial_bar_def Inr s'(1) alloc_def
    by (simp add: s'(2) Let_def sum.case_distrib[of fst] prod.case_distrib[of fst]
        cong: sum.case_cong)
qed

lemma plot_wind_rose_selection:
  assumes "map_sum id dropna (getitem_list (h' ! data self') [ws, wd])
         = map_sum id dropna (getitem_list (h ! data self) [ws, wd])"
  shows "fst (plot_wind_rose g self' h' ws wd bins cmap) = fst (plot_wind_rose g self h ws wd bins cmap)"
proof (cases "getitem_list (h ! data self) [ws, wd]")
  case (Inl e)
  then have "getitem_list (h' ! data self') [ws, wd] = Inl e"
    using assms by (cases "getitem_list (h' ! data self') [ws, wd]") simp_all
  then show ?thesis using Inl unfolding plot_wind_rose_def by simp
next
  case (Inr sel)
  then obtain sel' where s': "getitem_list (h' ! data self') [ws, wd] = Inr sel'" "dropna sel' = dropna sel"
    using assms by (cases "getitem_list (h' ! data self') [ws, wd]") simp_all
  show ?thesis
    unfolding plot_wind_rose_def Inr s'(1) alloc_def
    by (simp add: s'(2) Let_def sum.case_distrib[of fst] prod.case_distrib[of fst]
        cong: sum.case_cong)
qed

section \<open>Rows at 360 degrees\<close>

lemma complete_rows_filter:
  assumes "zip S' D' = filter (\<lambda>(s, d). d \<noteq> Some x) (zip S D)"
  shows "complete_rows S' D' = filter (\<lambda>(s, d). d \<noteq> x) (complete_rows S D)"
proof -
  have "List.map_filter f (filter (\<lambda>(s, d). d \<noteq> Some x) zs)
      = filter (\<lambda>(s, d). d \<noteq> x) (List.map_filter f zs)"
    if "f = (\<lambda>(s, d). case s of None \<Rightarrow> None
        | Some s' \<Rightarrow> (case d of None \<Rightarrow> None | Some d' \<Rightarrow> Some (s', d')))"
    for f and zs :: "(real option \<times> real option) list"
    unfolding that by (induction zs) (auto simp: List.map_filter_def split: option.splits)
  then show ?thesis unfolding complete_rows_def assms by simp
qed

lemma sector_speeds_without_360:
  assumes "0 < n" "n \<le> 720" "k < n"
  shows "sector_speeds n k (filter (\<lambda>(s, d). d \<noteq> 360) rows) = sector_speeds n k rows"
proof -
  have "sector_edge n (Suc k) \<le> 360"
    using sector_edge_mono_le[OF assms(1,2), of "Suc k" n] assms(3) sector_edge_top[of n] by simp
  then have "filter (\<lambda>(s, d). sector_edge n k \<le> d \<and> d < sector_edge n (Suc k))
        (filter (\<lambda>(s, d). d \<noteq> 360) rows)
      = filter (\<lambda>(s, d). sector_edge n k \<le> d \<and> d < sector_edge n (Suc k)) rows"
    by (induction rows) auto
  then show ?thesis by (simp only: sector_speeds_def)
qed

lemma radial_chart_without_360:
  assumes "0 < n" "n \<le> 720"
  shows "radial_chart_of n (filter (\<lambda>(s, d). d \<noteq> 360) rows) = radial_chart_of n rows"
  using assms by (simp add: radial_chart_of_def sector_means_def sector_speeds_without_360)

section \<open>More than 720 sectors\<close>


section \<open>The errors that the steps can raise\<close>

lemma getitem_list_error: "getitem_list fr ks = Inl e \<Longrightarrow> e = KeyError"
  by (induction ks) (auto split: list.splits sum.splits)

lemma linspace_error: "linspace a b num ep = Inl e \<Longrightarrow> e = ValueError"
  by (auto simp: linspace_def Let_def split: if_splits)

lemma getitem_error: "getitem fr k = Inl e \<Longrightarrow> e = KeyError"
  by (auto simp: getitem_def split: list.splits)

lemma cut_error: "cut x bins labels = Inl e \<Longrightarrow> e \<noteq> IndexError"
  by (auto simp: cut_def split: pd_value.splits column.splits if_splits)

lemma groupby_error: "groupby_mean fr key col = Inl e \<Longrightarrow> e \<noteq> IndexError"
  by (auto simp: groupby_mean_def split: sum.splits pd_value.splits column.splits option.splits
      dest: getitem_error)

lemma sector_labels_error:
  "sector_labels edges nb = Inl e \<Longrightarrow> length edges \<le> nat nb"
  by (auto simp: sector_labels_def split: if_splits)

lemma close_seq_error: "close_seq xs = Inl e \<Longrightarrow> xs = []"
  by (cases xs) (auto simp: close_seq_def)

lemma close_values_error: "close_values a = Inl e \<Longrightarrow> array_rows a = []"
  by (cases a) (auto simp: close_values_def array_rows_def split: sum.splits dest!: close_seq_error)

lemma plot_radial_bar_no_index_error:
  assumes "1 \<le> nb"
  shows "fst (plot_radial_bar self h ws wd nb) \<noteq> Inl IndexError"
  using assms
  apply (simp add: plot_radial_bar_def alloc_def Let_def del: getitem_list.simps
      split: sum.splits prod.splits)
  apply (auto simp del: getitem_list.simps dest!: getitem_list_error linspace_error getitem_error cut_error groupby_error
      sector_labels_error close_seq_error close_values_error linspace_length cut_Inr groupby_setitem
      sector_labels_length)
  done

section \<open>Frames without a complete row\<close>

lemma complete_rows_Nil2: "complete_rows [] D = []" "complete_rows S [] = []"
  by (simp_all add: complete_rows_def List.map_filter_def)

lemma complete_rows_set:
  "(s, d) \<in> set (complete_rows S D) \<longleftrightarrow> (Some s, Some d) \<in> set (zip S D)"
proof (induction S arbitrary: D)
  case Nil
  then show ?case by (simp add: complete_rows_Nil2)
next
  case (Cons x S)
  show ?case
  proof (cases D)
    case Nil
    then show ?thesis by (simp add: complete_rows_Nil2)
  next
    case (Cons y D')
    then show ?thesis using Cons.IH[of D']
      by (cases x; cases y) (auto simp: complete_rows_Cons)
  qed
qed

lemma complete_rows_none:
  assumes "\<forall>i<length S. S ! i = None \<or> D ! i = None"
  shows "complete_rows S D = []"
proof (cases "complete_rows S D")
  case Nil
  then show ?thesis .
next
  case (Cons r rs)
  obtain s d where r: "r = (s, d)" by (cases r)
  have "(s, d) \<in> set (complete_rows S D)" unfolding Cons r by simp
  then have "(Some s, Some d) \<in> set (zip S D)" by (simp add: complete_rows_set)
  then obtain i where "i < length S" "S ! i = Some s" "D ! i = Some d"
    by (auto simp: set_zip)
  with assms show ?thesis by auto
qed

lemma sector_means_Nil: "sector_means n [] = replicate n None"
  by (simp add: sector_means_def sector_speeds_def mean_def map_replicate_const)

section \<open>The edges in particular cases\<close>

text \<open>
  For 4 and 8 sectors every edge and every angle is exact. For 35 and 33 sectors the
  rounding shows: edge 21 of 35 is \<open>216 + 2\<^sup>-\<^sup>4\<^sup>5\<close>, so the direction 216 lies in sector
  20, and edge 11 of 33 is \<open>120 - 2\<^sup>-\<^sup>4\<^sup>6\<close>, so sector 10 is labelled 109-119.
\<close>

lemma fl_numeral: "numeral k \<le> (2::int) ^ 53 \<Longrightarrow> fl (numeral k) = numeral k"
  using fl_of_int[of "numeral k"] by simp

lemma sector_edge_4: "i \<le> 4 \<Longrightarrow> sector_edge 4 i = 90 * real i"
proof -
  assume i: "i \<le> 4"
  have s: "fl (360 / real 4) = 90" using fl_of_int[of 90] by simp
  have "fl (real i * 90) = real i * 90" using fl_of_int[of "int i * 90"] i by simp
  then show ?thesis using i unfolding sector_edge_def s by auto
qed

lemma sector_edge_8: "i \<le> 8 \<Longrightarrow> sector_edge 8 i = 45 * real i"
proof -
  assume i: "i \<le> 8"
  have s: "fl (360 / real 8) = 45" using fl_of_int[of 45] by simp
  have "fl (real i * 45) = real i * 45" using fl_of_int[of "int i * 45"] i by simp
  then show ?thesis using i unfolding sector_edge_def s by auto
qed

lemma sector_angle_4: "i \<le> 10 \<Longrightarrow> sector_angle 4 i = real i * (np_pi / 2)"
proof -
  assume i: "i \<le> 10"
  have s: "fl (2 * np_pi / real 4) = np_pi / 2"
    using fl_exact[of 884279719003555 "-49"] by (simp add: np_pi_def power_int_minus)
  have "int i * 884279719003555 \<le> 10 * 884279719003555" using i by simp
  then have "\<bar>int i * 884279719003555\<bar> \<le> 2 ^ 53" by simp
  from fl_exact[OF this, of "-49"] have "fl (real i * (np_pi / 2)) = real i * (np_pi / 2)"
    by (simp add: np_pi_def power_int_minus)
  then show ?thesis unfolding sector_angle_def s .
qed

lemma sector_angle_8: "i \<le> 10 \<Longrightarrow> sector_angle 8 i = real i * (np_pi / 4)"
proof -
  assume i: "i \<le> 10"
  have s: "fl (2 * np_pi / real 8) = np_pi / 4"
    using fl_exact[of 884279719003555 "-50"] by (simp add: np_pi_def power_int_minus)
  have "int i * 884279719003555 \<le> 10 * 884279719003555" using i by simp
  then have "\<bar>int i * 884279719003555\<bar> \<le> 2 ^ 53" by simp
  from fl_exact[OF this, of "-50"] have "fl (real i * (np_pi / 4)) = real i * (np_pi / 4)"
    by (simp add: np_pi_def power_int_minus)
  then show ?thesis unfolding sector_angle_def s .
qed

lemma step_35: "fl (72 / 7) = 5790342378047781 / 2 ^ 49"
proof -
  have "fl (72 / 7) = of_int (rne ((72 / 7) / 2 powi (3 - 52))) * 2 powi (3 - 52)"
    by (rule fl_pos) simp_all
  also have "(72 / 7 :: real) / 2 powi (3 - 52) = 40532396646334464 / 7"
    by (simp add: power_int_minus)
  also have "rne (40532396646334464 / 7) = 5790342378047781"
    by (simp add: rne_def Let_def)
  finally show ?thesis by (simp add: power_int_minus)
qed

lemma sector_edge_35_21: "sector_edge 35 21 = 216 + 1 / 2 ^ 45"
proof -
  define x :: real where "x = 21 * (5790342378047781 / 2 ^ 49)"
  have "fl x = of_int (rne (x / 2 powi (7 - 52))) * 2 powi (7 - 52)"
    by (rule fl_pos) (simp_all add: x_def)
  also have "x / 2 powi (7 - 52) = 121597189939003401 / 16"
    by (simp add: x_def power_int_minus)
  also have "rne (121597189939003401 / 16) = 7599824371187713"
    by (simp add: rne_def Let_def)
  finally have "fl x = 216 + 1 / 2 ^ 45" by (simp add: power_int_minus)
  then show ?thesis by (simp add: sector_edge_def step_35 x_def)
qed

lemma sector_edge_35_20: "sector_edge 35 20 < 216"
proof -
  have "sector_edge 35 20 \<le> 360 * real 20 / real 35 + 1 / 2 ^ 43"
    using sector_edge_error[of 35 20] by linarith
  then show ?thesis by simp
qed

lemma rounding_moves_direction_216: "cut_code (map (sector_edge 35) [0..<Suc 35]) (Some 216) = Some 20"
  by (rule cut_code_edges_in) (simp_all add: sector_edge_35_20 less_imp_le sector_edge_35_21)

lemma step_33: "fl (120 / 11) = 6141272219141585 / 2 ^ 49"
proof -
  have "fl (120 / 11) = of_int (rne ((120 / 11) / 2 powi (3 - 52))) * 2 powi (3 - 52)"
    by (rule fl_pos) simp_all
  also have "(120 / 11 :: real) / 2 powi (3 - 52) = 67553994410557440 / 11"
    by (simp add: power_int_minus)
  also have "rne (67553994410557440 / 11) = 6141272219141585"
    by (simp add: rne_def Let_def)
  finally show ?thesis by (simp add: power_int_minus)
qed

lemma sector_edge_33_11: "sector_edge 33 11 = 120 - 1 / 2 ^ 46"
proof -
  define x :: real where "x = 11 * (6141272219141585 / 2 ^ 49)"
  have "fl x = of_int (rne (x / 2 powi (6 - 52))) * 2 powi (6 - 52)"
    by (rule fl_pos) (simp_all add: x_def)
  also have "x / 2 powi (6 - 52) = 67553994410557435 / 8"
    by (simp add: x_def power_int_minus)
  also have "rne (67553994410557435 / 8) = 8444249301319679"
    by (simp add: rne_def Let_def)
  finally have "fl x = 120 - 1 / 2 ^ 46" by (simp add: power_int_minus)
  then show ?thesis by (simp add: sector_edge_def step_33 x_def)
qed

lemma rounding_moves_label_at_33: "sector_name 33 10 = ''109-119''"
proof -
  have "\<bar>sector_edge 33 10 - 360 * real 10 / real 33\<bar> \<le> 1 / 2 ^ 43"
    by (rule sector_edge_error) simp_all
  moreover have "(109::real) + 1 / 2 ^ 43 \<le> 360 * real 10 / real 33" by simp
  moreover have "360 * real 10 / real 33 + 1 / 2 ^ 43 < (110::real)" by simp
  ultimately have "109 \<le> sector_edge 33 10 \<and> sector_edge 33 10 < 110" by linarith
  then have a: "\<lfloor>sector_edge 33 10\<rfloor> = 109" by (simp add: floor_eq_iff)
  have b: "\<lfloor>sector_edge 33 (Suc 10)\<rfloor> = 119"
    by (simp add: sector_edge_33_11 floor_eq_iff)
  show ?thesis unfolding sector_name_def a b
    by (simp add: str_int_def str_nat.simps digit_char_def)
qed

lemma linspace_edges_4: "linspace 0 360 5 True = Inr [0, 90, 180, 270, 360]"
  using bin_edges_eq[of 4] by (simp add: upt_rec sector_edge_4)

lemma linspace_edges_8: "linspace 0 360 9 True = Inr [0, 45, 90, 135, 180, 225, 270, 315, 360]"
  using bin_edges_eq[of 8] by (simp add: upt_rec sector_edge_8)

lemma linspace_angles_4:
  "linspace 0 (2 * np_pi) 4 False = Inr [0, np_pi / 2, np_pi, 3 * np_pi / 2]"
  using angles_eq[of 4] by (simp add: upt_rec sector_angle_4)

lemma linspace_angles_8:
  "linspace 0 (2 * np_pi) 8 False
     = Inr [0, np_pi / 4, np_pi / 2, 3 * np_pi / 4, np_pi, 5 * np_pi / 4, 3 * np_pi / 2,
            7 * np_pi / 4]"
  using angles_eq[of 8] by (simp add: upt_rec sector_angle_8)

lemmas eval_defs = plot_radial_bar_def lookup_cols_def alloc_def dropna_def notna_mask_def
  nrows_def take_rows_def take_mask_def getitem_def sector_labels_def
  sector_label_def py_int_def str_int_def str_nat.simps digit_char_def cut_def cut_code_def
  searchsorted_right_def setitem_def groupby_mean_def group_values_def List.map_filter_def
  mean_def close_seq_def close_values_def col_floats_def upt_rec Let_def
  linspace_edges_4 linspace_edges_8 linspace_angles_4 linspace_angles_8


lemma repeated_speed_column:
  "map_sum id fill_values
     (fst (plot_radial_bar \<lparr>data = 0\<rparr>
         [[(''WS'', Floats [Some 5]), (''WS'', Floats [Some 7]), (''WD'', Floats [Some 100])]]
         ''WS'' ''WD'' 4))
   = Inr (Array2 [[None, None], [Some 5, Some 7], [None, None], [None, None], [None, None]])"
  by (simp add: eval_defs)

lemma direction_216_at_35_sectors:
  "map_sum id fill_values (fst (plot_radial_bar \<lparr>data = 0\<rparr>
         [[(''WS'', Floats [Some 5]), (''WD'', Floats [Some 216])]] ''WS'' ''WD'' (int 35)))
     = Inr (Array1 (replicate 20 None @ [Some 5] @ replicate 15 None))"
proof -
  have n: "(0::nat) < 35" "(35::nat) \<le> 720" by simp_all
  have w: "wind_columns ([[(''WS'', Floats [Some 5]), (''WD'', Floats [Some 216])]] ! data \<lparr>data = 0\<rparr>)
      ''WS'' ''WD'' [Some 5] [Some 216]"
    by (simp add: wind_columns_def lookup_cols_def)
  have rows: "complete_rows [Some 5] [Some 216] = [(5, 216)]"
    by (simp add: complete_rows_Cons complete_rows_Nil)
  have sp: "sector_speeds 35 k [(5, 216)] = (if k = 20 then [5] else [])" if "k < 35" for k
  proof -
    have "cut_code (map (sector_edge 35) [0..<Suc 35]) (Some 216) = Some k
        \<longleftrightarrow> k < 35 \<and> sector_edge 35 k \<le> 216 \<and> 216 < sector_edge 35 (Suc k)"
      by (rule cut_code_edges_iff[OF n])
    then have "sector_edge 35 k \<le> 216 \<and> 216 < sector_edge 35 (Suc k) \<longleftrightarrow> k = 20"
      using that rounding_moves_direction_216 by auto
    then show ?thesis by (auto simp: sector_speeds_def)
  qed
  have "sector_means 35 [(5, 216)] = map (\<lambda>k. if k = 20 then Some 5 else None) [0..<35]"
    unfolding sector_means_def by (rule map_cong) (simp_all add: sp mean_def)
  also have "\<dots> = replicate 20 None @ [Some 5] @ replicate 14 None"
    by (simp add: upt_rec eval_nat_numeral)
  finally have m: "sector_means 35 [(5, 216)] = replicate 20 None @ [Some 5] @ replicate 14 None" .
  have m0: "mean (sector_speeds 35 0 [(5, 216)]) = None" by (simp add: sp mean_def)
  have "fst (plot_radial_bar \<lparr>data = 0\<rparr>
         [[(''WS'', Floats [Some 5]), (''WD'', Floats [Some 216])]] ''WS'' ''WD'' (int 35))
      = Inr (radial_chart_of 35 [(5, 216)])"
    using plot_radial_bar_chart[OF n w] rows by simp
  moreover have "None # replicate 14 None = replicate 15 (None :: real option)"
    by (simp add: eval_nat_numeral)
  ultimately show ?thesis
    by (simp add: radial_chart_of_def m m0 replicate_append_same)
qed

section \<open>The claims\<close>

text \<open>
  C1. The specification asks that plot\_radial\_bar surface a "no data" error when every
  row is filtered out. The method has no such check. As amended: when every row misses
  its speed or its direction (the frame has the two float columns, and there are
  between 1 and 720 sectors), the method raises nothing: every sector mean is NaN and the
  closed sequence of \<open>num_bins + 1\<close> NaN values is handed to the renderer.
\<close>

theorem no_data_renders_nan:
  assumes "0 < n" "n \<le> 720" "wind_columns (h ! data self) ws wd S D"
    and "\<forall>i<length S. S ! i = None \<or> D ! i = None"
  shows "\<exists>r. fst (plot_radial_bar self h ws wd (int n)) = Inr r
            \<and> fill_values r = Array1 (replicate (n + 1) None)"
proof -
  have "complete_rows S D = []" using complete_rows_none assms(4) by blast
  then have "fst (plot_radial_bar self h ws wd (int n)) = Inr (radial_chart_of n [])"
    using plot_radial_bar_chart[OF assms(1-3)] by simp
  moreover have "fill_values (radial_chart_of n []) = Array1 (replicate (n + 1) None)"
    by (simp add: radial_chart_of_def sector_means_Nil sector_speeds_def mean_def
        replicate_append_same)
  ultimately show ?thesis by blast
qed

theorem no_data_renders_nan_witness:
  "\<exists>r. fst (plot_radial_bar \<lparr>data = 0\<rparr>
         [[(''WS'', Floats [None, Some 2]), (''WD'', Floats [Some 90, None])]] ''WS'' ''WD'' 8) = Inr r
      \<and> fill_values r = Array1 (replicate 9 None)"
  using no_data_renders_nan[of 8 "[[(''WS'', Floats [None, Some 2]), (''WD'', Floats [Some 90, None])]]"
      "\<lparr>data = 0\<rparr>" "''WS''" "''WD''" "[None, Some 2]" "[Some 90, None]"]
  by (simp add: wind_columns_def lookup_cols_def less_Suc_eq)

text \<open>
  The claim as stated fails on a frame of two rows, each with a missing value: the call
  reaches the renderer with nine NaN values.
\<close>

theorem no_data_no_error:
  "map_sum id fill_values
     (fst (plot_radial_bar \<lparr>data = 0\<rparr>
         [[(''WS'', Floats [None, Some 2]), (''WD'', Floats [Some 90, None])]] ''WS'' ''WD'' 8))
   = Inr (Array1 [None, None, None, None, None, None, None, None, None])"
  by (simp add: eval_defs)

text \<open>
  C2. Rows in which the speed or the direction is missing contribute to neither chart.
  Take any frame whose columns have the same length and any mask that drops only rows
  in which a speed or a direction column is missing: both methods compute the same on
  the masked frame as on the whole frame (the same error, or the same arguments for the
  renderer), so such rows affect no sector mean and nothing that the wind rose is given.
\<close>

theorem missing_rows_do_not_contribute:
  assumes "\<forall>(n, c) \<in> set (h ! data self). col_len c = length m"
    and "\<forall>i<length m. \<not> m ! i \<longrightarrow>
           (\<exists>(n, c) \<in> set (h ! data self). (n = ws \<or> n = wd) \<and> \<not> col_notna c ! i)"
    and "h' ! data self' = take_rows m (h ! data self)"
  shows "fst (plot_radial_bar self' h' ws wd nb) = fst (plot_radial_bar self h ws wd nb)
       \<and> fst (plot_wind_rose g self' h' ws wd bins cmap) = fst (plot_wind_rose g self h ws wd bins cmap)"
  using plot_radial_bar_selection[of h' self' ws wd h self nb]
    plot_wind_rose_selection[of h' self' ws wd h self g bins cmap]
    select_dropna_take_rows[OF assms(1,2)] assms(3)
  by simp

theorem missing_rows_do_not_contribute_witness:
  "fst (plot_radial_bar \<lparr>data = 0\<rparr> [[(''WS'', Floats [Some 1]), (''WD'', Floats [Some 10])]] ''WS'' ''WD'' 8)
     = fst (plot_radial_bar \<lparr>data = 0\<rparr>
         [[(''WS'', Floats [Some 1, None, Some 3]), (''WD'', Floats [Some 10, Some 20, None])]] ''WS'' ''WD'' 8)
   \<and> fst (plot_wind_rose Some \<lparr>data = 0\<rparr> [[(''WS'', Floats [Some 1]), (''WD'', Floats [Some 10])]]
         ''WS'' ''WD'' None (CmapName ''coolwarm''))
     = fst (plot_wind_rose Some \<lparr>data = 0\<rparr>
         [[(''WS'', Floats [Some 1, None, Some 3]), (''WD'', Floats [Some 10, Some 20, None])]]
         ''WS'' ''WD'' None (CmapName ''coolwarm''))"
  using missing_rows_do_not_contribute[of
      "[[(''WS'', Floats [Some 1, None, Some 3]), (''WD'', Floats [Some 10, Some 20, None])]]"
      "\<lparr>data = 0\<rparr>" "[True, False, False]" "''WS''" "''WD''"
      "[[(''WS'', Floats [Some 1]), (''WD'', Floats [Some 10])]]" "\<lparr>data = 0\<rparr>" 8 Some None
      "CmapName ''coolwarm''"]
  by (simp add: take_rows_def take_mask_def less_Suc_eq numeral_3_eq_3)




text \<open>
  C4. A row whose direction is exactly 360 falls in no sector: its code is missing, and
  the chart is the same as for the frame without the rows at 360.
\<close>

theorem direction_360_dropped:
  assumes "0 < n" "n \<le> 720"
    and "wind_columns (h ! data self) ws wd S D"
    and "wind_columns (h' ! data self') ws wd S' D'"
    and "zip S' D' = filter (\<lambda>(s, d). d \<noteq> Some 360) (zip S D)"
  shows "(\<exists>bin_edges. linspace 0 360 (int n + 1) True = Inr bin_edges
            \<and> cut_code bin_edges (Some 360) = None)
       \<and> fst (plot_radial_bar self' h' ws wd (int n)) = fst (plot_radial_bar self h ws wd (int n))"
proof -
  have "cut_code (map (sector_edge n) [0..<Suc n]) (Some 360) = None"
    using cut_code_edges_high[OF assms(1,2), of 360] by simp
  then have a: "\<exists>bin_edges. linspace 0 360 (int n + 1) True = Inr bin_edges
            \<and> cut_code bin_edges (Some 360) = None"
    using bin_edges_eq[OF assms(1)] by simp
  have "complete_rows S' D' = filter (\<lambda>(s, d). d \<noteq> 360) (complete_rows S D)"
    using complete_rows_filter[OF assms(5)] .
  then have "radial_chart_of n (complete_rows S' D') = radial_chart_of n (complete_rows S D)"
    using radial_chart_without_360[OF assms(1,2)] by simp
  then have "fst (plot_radial_bar self' h' ws wd (int n)) = fst (plot_radial_bar self h ws wd (int n))"
    using plot_radial_bar_chart[OF assms(1,2,3)] plot_radial_bar_chart[OF assms(1,2,4)] by simp
  with a show ?thesis by blast
qed

theorem direction_360_dropped_witness:
  "(\<exists>bin_edges. linspace 0 360 (int 8 + 1) True = Inr bin_edges
            \<and> cut_code bin_edges (Some 360) = None)
       \<and> fst (plot_radial_bar \<lparr>data = 0\<rparr> [[(''WS'', Floats [Some 5]), (''WD'', Floats [Some 10])]]
               ''WS'' ''WD'' (int 8))
         = fst (plot_radial_bar \<lparr>data = 0\<rparr>
               [[(''WS'', Floats [Some 5, Some 9]), (''WD'', Floats [Some 10, Some 360])]]
               ''WS'' ''WD'' (int 8))"
  using direction_360_dropped[of 8
      "[[(''WS'', Floats [Some 5, Some 9]), (''WD'', Floats [Some 10, Some 360])]]" "\<lparr>data = 0\<rparr>"
      "''WS''" "''WD''" "[Some 5, Some 9]" "[Some 10, Some 360]"
      "[[(''WS'', Floats [Some 5]), (''WD'', Floats [Some 10])]]" "\<lparr>data = 0\<rparr>"
      "[Some 5]" "[Some 10]"]
  by (simp add: wind_columns_def lookup_cols_def)

text \<open>
  C5. The average of a sector that holds no observation is NaN, not zero. The sector is
  the one between the edges that the method computes: no row with both values present
  has its direction from edge \<open>k\<close> up to but not including edge \<open>k + 1\<close>.
\<close>

theorem empty_sector_is_nan:
  assumes "0 < n" "n \<le> 720" "wind_columns (h ! data self) ws wd S D" "k < n"
    and "linspace 0 360 (int n + 1) True = Inr bin_edges"
    and "\<forall>s d. (Some s, Some d) \<in> set (zip S D)
           \<longrightarrow> \<not> (bin_edges ! k \<le> d \<and> d < bin_edges ! Suc k)"
  shows "\<exists>r values. fst (plot_radial_bar self h ws wd (int n)) = Inr r
            \<and> fill_values r = Array1 values
            \<and> values ! k = None \<and> values ! k \<noteq> Some 0
            \<and> xticklabels r ! k = sector_label bin_edges k"
proof -
  have E: "bin_edges = map (sector_edge n) [0..<Suc n]"
    using assms(5) bin_edges_eq[OF assms(1)] by simp
  have nth: "bin_edges ! k = sector_edge n k" "bin_edges ! Suc k = sector_edge n (Suc k)"
    unfolding E using assms(4) by (simp_all del: upt_Suc)
  have "sector_speeds n k (complete_rows S D) = []"
    using assms(6) unfolding nth
    by (auto simp: sector_speeds_def filter_empty_conv complete_rows_set)
  then have "sector_means n (complete_rows S D) ! k = None"
    using assms(4) by (simp add: sector_means_def mean_def)
  then have v: "(sector_means n (complete_rows S D)
        @ [mean (sector_speeds n 0 (complete_rows S D))]) ! k = None"
    using assms(4) by (simp add: nth_append sector_means_def)
  have "sector_labels bin_edges (int n) = Inr (map (sector_name n) [0..<n])"
    unfolding E by (rule sector_labels_eq[OF assms(1)])
  then have "map (sector_label bin_edges) [0..<n] = map (sector_name n) [0..<n]"
    by (simp add: sector_labels_def E)
  then have "sector_label bin_edges k = sector_name n k"
    using assms(4) by (metis length_map length_upt diff_zero nth_map add_0 nth_upt)
  then have l: "xticklabels (radial_chart_of n (complete_rows S D)) ! k = sector_label bin_edges k"
    using assms(4) by (simp add: radial_chart_of_def)
  have f: "fill_values (radial_chart_of n (complete_rows S D))
      = Array1 (sector_means n (complete_rows S D) @ [mean (sector_speeds n 0 (complete_rows S D))])"
    by (simp add: radial_chart_of_def)
  show ?thesis
    using plot_radial_bar_chart[OF assms(1-3)] v l f by auto
qed

theorem empty_sector_is_nan_witness:
  "\<exists>r values. fst (plot_radial_bar \<lparr>data = 0\<rparr>
         [[(''WS'', Floats [Some 5]), (''WD'', Floats [Some 216])]] ''WS'' ''WD'' (int 35)) = Inr r
      \<and> fill_values r = Array1 values
      \<and> values ! 21 = None \<and> values ! 21 \<noteq> Some 0
      \<and> xticklabels r ! 21 = sector_label (map (sector_edge 35) [0..<Suc 35]) 21"
proof -
  have n: "(0::nat) < 35" "(35::nat) \<le> 720" "(21::nat) < 35" by simp_all
  have w: "wind_columns ([[(''WS'', Floats [Some 5]), (''WD'', Floats [Some 216])]] ! data \<lparr>data = 0\<rparr>)
      ''WS'' ''WD'' [Some 5] [Some 216]"
    by (simp add: wind_columns_def lookup_cols_def)
  have e: "map (sector_edge 35) [0..<Suc 35] ! 21 = sector_edge 35 21"
    by (simp del: upt_Suc)
  have "\<forall>s d. (Some s, Some d) \<in> set (zip [Some (5::real)] [Some (216::real)])
           \<longrightarrow> \<not> (map (sector_edge 35) [0..<Suc 35] ! 21 \<le> d
                  \<and> d < map (sector_edge 35) [0..<Suc 35] ! Suc 21)"
    unfolding e by (simp add: sector_edge_35_21)
  from empty_sector_is_nan[OF n(1,2) w n(3) bin_edges_eq[OF n(1)] this]
  show ?thesis .
qed




text \<open>
  C7. When plot\_wind\_rose is called without bin edges, the edges handed to the wind rose
  are 0, 1, 2, 3, 5, 10, 15, 20, whatever the object, the heap and the columns.
\<close>

theorem default_speed_bins:
  assumes "fst (plot_wind_rose get_cmap self h ws wd None cmap) = Inr call"
  shows "bar_bins call = [0, 1, 2, 3, 5, 10, 15, 20]"
  using assms
  by (auto simp: plot_wind_rose_def alloc_def Let_def split: sum.splits prod.splits)

theorem default_speed_bins_witness:
  "map_sum id bar_bins
     (fst (plot_wind_rose Some \<lparr>data = 0\<rparr>
         [[(''WS'', Floats [Some 1, None]), (''WD'', Floats [Some 10, Some 20])]]
         ''WS'' ''WD'' None (CmapName ''coolwarm'')))
   = Inr [0, 1, 2, 3, 5, 10, 15, 20]"
proof -
  have h: "fst (plot_wind_rose Some \<lparr>data = 0\<rparr>
         [[(''WS'', Floats [Some 1, None]), (''WD'', Floats [Some 10, Some 20])]]
         ''WS'' ''WD'' None (CmapName ''coolwarm''))
     = Inr \<lparr>bar_direction = Series (Floats [Some 10]), bar_var = Series (Floats [Some 1]),
            bar_normed = True, bar_bins = [0, 1, 2, 3, 5, 10, 15, 20], bar_cmap = ''coolwarm''\<rparr>"
    by (simp add: plot_wind_rose_def resolve_cmap_def eval_defs)
  show ?thesis using default_speed_bins[OF h] unfolding h by simp
qed

text \<open>
  C8. Neither method changes the frame that the object holds, nor any other frame that
  existed before the call: the sector column is set on the frame that \<^verbatim>\<open>dropna\<close> has
  allocated.
\<close>

theorem source_dataset_not_mutated:
  assumes "data self < length h"
  shows "snd (plot_radial_bar self h ws wd nb) ! data self = h ! data self
       \<and> snd (plot_wind_rose get_cmap self h ws wd bins cmap) ! data self = h ! data self
       \<and> take (length h) (snd (plot_radial_bar self h ws wd nb)) = h
       \<and> take (length h) (snd (plot_wind_rose get_cmap self h ws wd bins cmap)) = h"
proof -
  have "take (length h) (snd (plot_radial_bar self h ws wd nb)) = h"
    by (auto simp: plot_radial_bar_def alloc_def Let_def split: sum.splits prod.splits)
  moreover have "take (length h) (snd (plot_wind_rose get_cmap self h ws wd bins cmap)) = h"
    by (auto simp: plot_wind_rose_def alloc_def Let_def split: sum.splits prod.splits)
  ultimately show ?thesis
    using plot_radial_bar_heap[OF assms] plot_wind_rose_heap[OF assms] by simp
qed

theorem source_dataset_not_mutated_witness:
  "data \<lparr>data = 0\<rparr> < length [[(''WS'', Floats [Some 1, None]), (''WD'', Floats [Some 10, Some 20])]]
   \<and> snd (plot_radial_bar \<lparr>data = 0\<rparr>
         [[(''WS'', Floats [Some 1, None]), (''WD'', Floats [Some 10, Some 20])]] ''WS'' ''WD'' 8) ! 0
     = [(''WS'', Floats [Some 1, None]), (''WD'', Floats [Some 10, Some 20])]
   \<and> snd (plot_wind_rose Some \<lparr>data = 0\<rparr>
         [[(''WS'', Floats [Some 1, None]), (''WD'', Floats [Some 10, Some 20])]]
         ''WS'' ''WD'' None (CmapName ''coolwarm'')) ! 0
     = [(''WS'', Floats [Some 1, None]), (''WD'', Floats [Some 10, Some 20])]"
  using source_dataset_not_mutated[of "\<lparr>data = 0\<rparr>"
      "[[(''WS'', Floats [Some 1, None]), (''WD'', Floats [Some 10, Some 20])]]"
      "''WS''" "''WD''" 8 Some None "CmapName ''coolwarm''"]
  by simp

text \<open>
  C9. Four rows with directions 0, 90, 180, 270 and speeds 1, 2, 3, 4, and four sectors:
  the sector means are 1, 2, 3, 4 for the sectors labelled 0-90, 90-180, 180-270 and
  270-360 (the fifth value closes the polygon).
\<close>

theorem end_to_end_four_sectors:
  "fst (plot_radial_bar \<lparr>data = 0\<rparr>
         [[(''WS'', Floats [Some 1, Some 2, Some 3, Some 4]),
           (''WD'', Floats [Some 0, Some 90, Some 180, Some 270])]] ''WS'' ''WD'' 4)
   = Inr \<lparr>fill_angles = [0, np_pi / 2, np_pi, 3 * np_pi / 2, 0],
          fill_values = Array1 [Some 1, Some 2, Some 3, Some 4, Some 1],
          xticks = [0, np_pi / 2, np_pi, 3 * np_pi / 2],
          xticklabels = [''0-90'', ''90-180'', ''180-270'', ''270-360'']\<rparr>"
  by (simp add: eval_defs)

text \<open>
  C10. For \<open>num_bins \<ge> 1\<close> the closing step never reads out of range, and whenever the
  method reaches the renderer the sector averages have exactly \<open>num_bins\<close> entries, one
  per sector label in the order of the sectors, whatever the data: the labels are those
  of the edges that the method computes, and the values before the closing element are
  as many as the tick positions and the labels.
\<close>

theorem sector_avg_has_num_bins_entries:
  assumes "1 \<le> nb"
  shows "fst (plot_radial_bar self h ws wd nb) \<noteq> Inl IndexError
       \<and> (\<forall>r. fst (plot_radial_bar self h ws wd nb) = Inr r \<longrightarrow>
            (\<exists>bin_edges. linspace 0 360 (nb + 1) True = Inr bin_edges
                \<and> xticklabels r = map (sector_label bin_edges) [0..<nat nb])
          \<and> length (butlast (array_rows (fill_values r))) = nat nb
          \<and> length (xticks r) = nat nb
          \<and> array_rows (fill_values r)
              = butlast (array_rows (fill_values r)) @ [array_rows (fill_values r) ! 0])"
proof (intro conjI allI impI)
  show "fst (plot_radial_bar self h ws wd nb) \<noteq> Inl IndexError"
    using plot_radial_bar_no_index_error[OF assms] .
next
  fix r assume r: "fst (plot_radial_bar self h ws wd nb) = Inr r"
  have n: "0 < nat nb" "int (nat nb) + 1 = nb + 1" using assms by simp_all
  note sh = plot_radial_bar_shape[OF r]
  have lin: "linspace 0 360 (nb + 1) True = Inr (map (sector_edge (nat nb)) [0..<Suc (nat nb)])"
    using bin_edges_eq[OF n(1)] unfolding n(2) .
  from sh have "sector_labels (projr (linspace 0 360 (nb + 1) True)) nb = Inr (xticklabels r)"
    by blast
  then have "xticklabels r
      = map (sector_label (map (sector_edge (nat nb)) [0..<Suc (nat nb)])) [0..<nat nb]"
    unfolding lin by (simp add: sector_labels_def split: if_splits)
  then show "\<exists>bin_edges. linspace 0 360 (nb + 1) True = Inr bin_edges
                \<and> xticklabels r = map (sector_label bin_edges) [0..<nat nb]"
    using lin by blast
  show "length (butlast (array_rows (fill_values r))) = nat nb" using sh by simp
  show "length (xticks r) = nat nb" using sh by simp
  have ne: "array_rows (fill_values r) \<noteq> []" using sh by auto
  have "last (array_rows (fill_values r)) = array_rows (fill_values r) ! 0"
    using sh ne by (simp add: hd_conv_nth)
  then show "array_rows (fill_values r)
      = butlast (array_rows (fill_values r)) @ [array_rows (fill_values r) ! 0]"
    using ne by (metis append_butlast_last_id)
qed

theorem sector_avg_has_num_bins_entries_witness:
  "(1::int) \<le> 33
   \<and> fst (plot_radial_bar \<lparr>data = 0\<rparr>
         [[(''WS'', Floats [Some 5, None]), (''WD'', Floats [Some 10, Some 200])]] ''WS'' ''WD'' 33)
       \<noteq> Inl IndexError
   \<and> map_sum id (\<lambda>r. (length (xticklabels r), xticklabels r ! 10,
          length (butlast (array_rows (fill_values r)))))
       (fst (plot_radial_bar \<lparr>data = 0\<rparr>
         [[(''WS'', Floats [Some 5, None]), (''WD'', Floats [Some 10, Some 200])]] ''WS'' ''WD'' 33))
       = Inr (33, ''109-119'', 33)"
proof -
  have n: "(0::nat) < 33" "(33::nat) \<le> 720" by simp_all
  have w: "wind_columns ([[(''WS'', Floats [Some 5, None]), (''WD'', Floats [Some 10, Some 200])]] ! data \<lparr>data = 0\<rparr>)
      ''WS'' ''WD'' [Some 5, None] [Some 10, Some 200]"
    by (simp add: wind_columns_def lookup_cols_def)
  have h: "fst (plot_radial_bar \<lparr>data = 0\<rparr>
         [[(''WS'', Floats [Some 5, None]), (''WD'', Floats [Some 10, Some 200])]] ''WS'' ''WD'' 33)
      = Inr (radial_chart_of 33 (complete_rows [Some 5, None] [Some 10, Some 200]))"
    using plot_radial_bar_chart[OF n w] by simp
  have l: "xticklabels (radial_chart_of 33 rows) ! 10 = ''109-119''" for rows
    using rounding_moves_label_at_33 by (simp add: radial_chart_of_def del: upt_Suc)
  have one: "(1::int) \<le> 33" by simp
  show ?thesis
    using sector_avg_has_num_bins_entries[OF one, of "\<lparr>data = 0\<rparr>"
      "[[(''WS'', Floats [Some 5, None]), (''WD'', Floats [Some 10, Some 200])]]" "''WS''" "''WD''"]
    unfolding h
    by (simp add: l radial_chart_of_def array_rows_def sector_means_def
        rounding_moves_label_at_33 del: upt_Suc)
qed

end
